theory Spec2Isabelle
  imports
    Complex_Main
    "HOL-Library.Monad_Syntax"
    "HOL-Library.Product_Lexorder"
    "HOL-Library.Signed_Division"
begin

section \<open>Mesh renumbering of Code\_Saturne (\<^verbatim>\<open>cs_renumber.c\<close>)\<close>

text \<open>
  The C types \<^verbatim>\<open>cs_lnum_t\<close> and \<^verbatim>\<open>int\<close> are modelled by unbounded integers: signed
  overflow is undefined in C and no wrap-around is written out. Entity counts and the
  cell ids stored in the mesh are natural numbers. An array is a list. In the functions
  of the multipass algorithm every array access is checked against the allocated extent,
  and an access outside of it (undefined behaviour in C) makes the function return
  \<open>None\<close>; so does a division by zero.
\<close>

subsection \<open>Checked array accesses and C arithmetic\<close>

definition rd :: "'a list \<Rightarrow> int \<Rightarrow> 'a option" where
  "rd xs i = (if 0 \<le> i \<and> i < int (length xs) then Some (xs ! nat i) else None)"

definition wr :: "'a list \<Rightarrow> int \<Rightarrow> 'a \<Rightarrow> 'a list option" where
  "wr xs i v = (if 0 \<le> i \<and> i < int (length xs) then Some (xs[nat i := v]) else None)"

definition c_div :: "int \<Rightarrow> int \<Rightarrow> int option" where
  "c_div a b = (if b = 0 then None else Some (a sdiv b))"

definition c_mod :: "int \<Rightarrow> int \<Rightarrow> int option" where
  "c_mod a b = (if b = 0 then None else Some (a smod b))"

text \<open>Conversion of a \<^verbatim>\<open>double\<close> to an integer truncates towards zero.\<close>

definition c_trunc :: "rat \<Rightarrow> int" where
  "c_trunc x = (if 0 \<le> x then \<lfloor>x\<rfloor> else \<lceil>x\<rceil>)"

text \<open>
  The values of type \<^verbatim>\<open>double\<close> that the imbalance estimate can take: a finite value
  (kept exact, rounding is not modelled), plus infinity, or not-a-number. A comparison
  with a not-a-number is false.
\<close>

datatype dbl = Fin rat | PInf | NaN

fun dbl_gt :: "dbl \<Rightarrow> dbl \<Rightarrow> bool" where
  "dbl_gt (Fin a) (Fin b) = (a > b)"
| "dbl_gt PInf (Fin b) = True"
| "dbl_gt _ _ = False"

fun dbl_le :: "dbl \<Rightarrow> dbl \<Rightarrow> bool" where
  "dbl_le (Fin a) (Fin b) = (a \<le> b)"
| "dbl_le (Fin a) PInf = True"
| "dbl_le PInf PInf = True"
| "dbl_le _ _ = False"

text \<open>
  A counted loop \<^verbatim>\<open>for (i = a; i < n; i++)\<close> whose body neither changes \<open>i\<close> nor leaves
  the loop early; the body may fail.
\<close>

function for_loop :: "int \<Rightarrow> int \<Rightarrow> (int \<Rightarrow> 's \<Rightarrow> 's option) \<Rightarrow> 's \<Rightarrow> 's option" where
  "for_loop i n body s =
     (if i < n then do { s' \<leftarrow> body i s; for_loop (i + 1) n body s' } else Some s)"
  by pat_completeness auto
termination
  by (relation "measure (\<lambda>(i, n, _, _). nat (n - i))") auto

declare for_loop.simps [simp del]

subsection \<open>Configuration and mesh\<close>

datatype cs_renumber_i_faces_type =
  CS_RENUMBER_I_FACES_BLOCK | CS_RENUMBER_I_FACES_MULTIPASS | CS_RENUMBER_I_FACES_NONE

text \<open>The global variables of the file; the defaults are 0, 64, 64 and multipass.\<close>

record config =
  cs_renumber_n_threads :: int
  min_i_subset_size :: int
  min_b_subset_size :: int
  i_faces_algorithm :: cs_renumber_i_faces_type

datatype cs_numbering_type = CS_NUMBERING_DEFAULT | CS_NUMBERING_VECTORIZE | CS_NUMBERING_THREADS

record cs_numbering =
  numbering_type :: cs_numbering_type
  n_threads :: int
  n_groups :: int
  group_index :: "int list"

text \<open>
  The fields of \<^verbatim>\<open>cs_mesh_t\<close> that the renumbering reads or writes. A pointer that may be
  \<^verbatim>\<open>NULL\<close> is an option. Face to vertex and cell to cell indexes are 1-based, as are the
  cell numbers of the extended neighbourhood.
\<close>

record cs_mesh =
  n_cells :: nat
  n_cells_with_ghosts :: nat
  n_i_faces :: nat
  n_b_faces :: nat
  i_face_cells :: "(nat \<times> nat) list"
  b_face_cells :: "nat list"
  i_face_vtx_idx :: "int list"
  i_face_vtx_lst :: "int list option"
  b_face_vtx_idx :: "int list"
  b_face_vtx_lst :: "int list option"
  cell_cells_idx :: "int list"
  cell_cells_lst :: "int list option"
  cell_family :: "int list option"
  i_face_family :: "int list option"
  b_face_family :: "int list option"
  global_cell_num :: "nat list option"
  global_i_face_num :: "nat list option"
  global_b_face_num :: "nat list option"
  i_face_numbering :: "cs_numbering option"
  b_face_numbering :: "cs_numbering option"

subsection \<open>Lexicographic ordering (\<^verbatim>\<open>cs_order_lnum_allocated_s\<close>)\<close>

text \<open>
  Modelled from the spec: \<^verbatim>\<open>cs_order_lnum_allocated_s\<close> is defined in \<^verbatim>\<open>cs_order.c\<close>, which
  is not part of the sources at hand. The spec gives its contract: given \<open>n\<close> tuples of
  integer keys it produces a permutation of \<open>0..<n\<close> along which the tuples are
  non-decreasing in the lexicographic order, ties broken deterministically. The tuples of
  a strided key array are given as a list, one tuple for each entity.
\<close>

definition cs_order_lnum_allocated_s :: "('k::linorder) list \<Rightarrow> nat list" where
  "cs_order_lnum_allocated_s keys = sort_key (\<lambda>i. keys ! i) [0..<length keys]"

subsection \<open>The multipass algorithm for interior faces\<close>

text \<open>The work arrays that \<^verbatim>\<open>_renum_face_multipass\<close> allocates and hands to its helpers.\<close>

record mp_arrays =
  faces_list :: "int list"
  l_face_cells :: "(int \<times> int) list"
  f_t_id :: "int list"
  n_t_faces :: "int list"
  t_face_last :: "int list"
  t_cell_index :: "int list"

text \<open>
  \<^verbatim>\<open>_renum_face_multipass_assign\<close>. The inner loop
  \<^verbatim>\<open>while (c_id_0 >= t_cell_index[t_id+1]) t_id += 1;\<close> comes first; \<open>t_id\<close> is kept from
  one face of the list to the next.
\<close>

function assign_next_thread :: "int list \<Rightarrow> int \<Rightarrow> int \<Rightarrow> int option" where
  "assign_next_thread tci c_id_0 t_id = do {
     b \<leftarrow> rd tci (t_id + 1);
     if c_id_0 \<ge> b then assign_next_thread tci c_id_0 (t_id + 1) else Some t_id
   }"
  by pat_completeness auto
termination
  by (relation "measure (\<lambda>(tci, _, t_id). nat (int (length tci) - t_id))")
     (auto simp: rd_def split: if_splits)

declare assign_next_thread.simps [simp del]

definition assign_face :: "int \<Rightarrow> int \<Rightarrow> int \<Rightarrow> int \<times> mp_arrays \<Rightarrow> (int \<times> mp_arrays) option" where
  "assign_face n_i_threads g_id fl_id s = (case s of (t_id, w) \<Rightarrow> do {
     f_id \<leftarrow> rd (faces_list w) fl_id;
     c \<leftarrow> rd (l_face_cells w) f_id;
     t \<leftarrow> assign_next_thread (t_cell_index w) (fst c) t_id;
     lo \<leftarrow> rd (t_cell_index w) t;
     hi \<leftarrow> rd (t_cell_index w) (t + 1);
     if fst c \<ge> lo \<and> snd c < hi then do {
       fti \<leftarrow> wr (f_t_id w) f_id (t + g_id * n_i_threads);
       n \<leftarrow> rd (n_t_faces w) t;
       ntf \<leftarrow> wr (n_t_faces w) t (n + 1);
       tfl \<leftarrow> wr (t_face_last w) t fl_id;
       Some (t, w\<lparr>f_t_id := fti, n_t_faces := ntf, t_face_last := tfl\<rparr>)
     } else do {
       fti \<leftarrow> wr (f_t_id w) f_id (- 1);
       Some (t, w\<lparr>f_t_id := fti\<rparr>)
     }
   })"

definition renum_face_multipass_assign ::
  "int \<Rightarrow> int \<Rightarrow> int \<Rightarrow> int \<Rightarrow> mp_arrays \<Rightarrow> mp_arrays option" where
  "renum_face_multipass_assign n_i_threads n_g_i_threads g_id faces_list_size w = do {
     w1 \<leftarrow> for_loop 0 n_g_i_threads (\<lambda>t_id w. do {
             ntf \<leftarrow> wr (n_t_faces w) t_id 0;
             tfl \<leftarrow> wr (t_face_last w) t_id faces_list_size;
             Some (w\<lparr>n_t_faces := ntf, t_face_last := tfl\<rparr>)
           }) w;
     r \<leftarrow> for_loop 0 faces_list_size (assign_face n_i_threads g_id) (0, w1);
     Some (snd r)
   }"

text \<open>
  \<^verbatim>\<open>_renum_face_multipass_g_unbalance\<close>: \<open>max / mean - 1\<close> in double precision. The mean
  is the quotient of the sum by the number of threads; with a sum of zero the maximum is
  divided by zero, which gives not-a-number for a maximum of zero.
\<close>

definition renum_face_multipass_g_unbalance :: "int \<Rightarrow> int list \<Rightarrow> dbl option" where
  "renum_face_multipass_g_unbalance n_i_threads ntf = do {
     sm \<leftarrow> for_loop 0 n_i_threads (\<lambda>t_id sm. do {
             v \<leftarrow> rd ntf t_id;
             Some (fst sm + v, if v > snd sm then v else snd sm)
           }) (0, 0);
     Some (if fst sm = 0 then (if snd sm = 0 then NaN else PInf)
           else Fin (of_int (snd sm) / (of_int (fst sm) / of_int n_i_threads) - 1))
   }"

text \<open>
  \<^verbatim>\<open>_renum_face_multipass_redistribute\<close>. Its four inner loops come first: the walk
  backwards over the faces of thread \<open>t_id\<close>, the walk forwards to the last face with the
  same first cell, and their two counterparts of the other branch.
\<close>

function redistribute_back :: "mp_arrays \<Rightarrow> int \<Rightarrow> int \<Rightarrow> int \<Rightarrow> int \<Rightarrow> int option" where
  "redistribute_back w t0_c_start f_t_id0 fl_id_end n_t_faces_move =
     (if fl_id_end > - 1 then do {
        f \<leftarrow> rd (faces_list w) fl_id_end;
        c \<leftarrow> rd (l_face_cells w) f;
        if fst c \<ge> t0_c_start \<and> n_t_faces_move > 0 then do {
          tag \<leftarrow> rd (f_t_id w) f;
          redistribute_back w t0_c_start f_t_id0 (fl_id_end - 1)
            (if tag = f_t_id0 then n_t_faces_move - 1 else n_t_faces_move)
        } else Some fl_id_end
      } else Some fl_id_end)"
  by pat_completeness auto
termination
  by (relation "measure (\<lambda>(_, _, _, fl_id_end, _). nat (fl_id_end + 1))") auto

declare redistribute_back.simps [simp del]

function redistribute_same_fwd :: "mp_arrays \<Rightarrow> int \<Rightarrow> int \<Rightarrow> int option" where
  "redistribute_same_fwd w t_last fl_id_end =
     (if fl_id_end < t_last then do {
        f1 \<leftarrow> rd (faces_list w) (fl_id_end + 1);
        c1 \<leftarrow> rd (l_face_cells w) f1;
        f0 \<leftarrow> rd (faces_list w) fl_id_end;
        c0 \<leftarrow> rd (l_face_cells w) f0;
        if fst c1 = fst c0 then redistribute_same_fwd w t_last (fl_id_end + 1)
        else Some fl_id_end
      } else Some fl_id_end)"
  by pat_completeness auto
termination
  by (relation "measure (\<lambda>(_, t_last, fl_id_end). nat (t_last - fl_id_end))") auto

declare redistribute_same_fwd.simps [simp del]

function redistribute_fwd :: "mp_arrays \<Rightarrow> int \<Rightarrow> int \<Rightarrow> int \<Rightarrow> int \<Rightarrow> int \<Rightarrow> int option" where
  "redistribute_fwd w t1_c_end f_t_id1 fl_id_max fl_id_end n_t_faces_move =
     (if fl_id_end \<le> fl_id_max then do {
        f \<leftarrow> rd (faces_list w) fl_id_end;
        c \<leftarrow> rd (l_face_cells w) f;
        if fst c \<le> t1_c_end \<and> n_t_faces_move < 0 then do {
          tag \<leftarrow> rd (f_t_id w) f;
          redistribute_fwd w t1_c_end f_t_id1 fl_id_max (fl_id_end + 1)
            (if tag = f_t_id1 then n_t_faces_move + 1 else n_t_faces_move)
        } else Some fl_id_end
      } else Some fl_id_end)"
  by pat_completeness auto
termination
  by (relation "measure (\<lambda>(_, _, _, fl_id_max, fl_id_end, _). nat (fl_id_max + 1 - fl_id_end))")
     auto

declare redistribute_fwd.simps [simp del]

function redistribute_same_back :: "mp_arrays \<Rightarrow> int \<Rightarrow> int \<Rightarrow> int option" where
  "redistribute_same_back w t_last fl_id_end =
     (if fl_id_end \<ge> t_last \<and> fl_id_end > 0 then do {
        f0 \<leftarrow> rd (faces_list w) fl_id_end;
        c0 \<leftarrow> rd (l_face_cells w) f0;
        f1 \<leftarrow> rd (faces_list w) (fl_id_end - 1);
        c1 \<leftarrow> rd (l_face_cells w) f1;
        if fst c0 = fst c1 then redistribute_same_back w t_last (fl_id_end - 1)
        else Some fl_id_end
      } else Some fl_id_end)"
  by pat_completeness auto
termination
  by (relation "measure (\<lambda>(_, _, fl_id_end). nat fl_id_end)") auto

declare redistribute_same_back.simps [simp del]

text \<open>One round of the loop on \<open>t_id\<close>: the boundary between threads \<open>t_id\<close> and \<open>t_id + 1\<close>.\<close>

definition redistribute_boundary ::
  "int \<Rightarrow> int \<Rightarrow> rat \<Rightarrow> int \<Rightarrow> rat \<Rightarrow> int \<Rightarrow> mp_arrays \<Rightarrow> mp_arrays option" where
  "redistribute_boundary n_i_threads g_id relax faces_list_size n_t_faces_mean t_id w = do {
     let t_id1 = t_id + 1;
     t0_c_start \<leftarrow> rd (t_cell_index w) t_id;
     t1_c_start \<leftarrow> rd (t_cell_index w) t_id1;
     t1_c_end \<leftarrow> rd (t_cell_index w) (t_id1 + 1);
     let n_t_faces_target = c_trunc n_t_faces_mean;
     ntf \<leftarrow> rd (n_t_faces w) t_id;
     t_last \<leftarrow> rd (t_face_last w) t_id;
     let n_t_faces_move = c_trunc (of_int (ntf - n_t_faces_target) * relax);
     if n_t_faces_move > 0 then do {
       e1 \<leftarrow> redistribute_back w t0_c_start (t_id + g_id * n_i_threads) (t_last - 1) n_t_faces_move;
       e2 \<leftarrow> redistribute_same_fwd w t_last e1;
       f \<leftarrow> rd (faces_list w) e2;
       c \<leftarrow> rd (l_face_cells w) f;
       tci \<leftarrow> wr (t_cell_index w) t_id1 (if fst c + 1 > t1_c_start then t1_c_start else fst c + 1);
       Some (w\<lparr>t_cell_index := tci\<rparr>)
     } else if n_t_faces_move < 0 then do {
       t_last1 \<leftarrow> rd (t_face_last w) t_id1;
       let fl_id_max = min t_last1 (faces_list_size - 1);
       e1 \<leftarrow> redistribute_fwd w t1_c_end (t_id1 + g_id * n_i_threads) fl_id_max t_last n_t_faces_move;
       e2 \<leftarrow> redistribute_same_back w t_last (min e1 (faces_list_size - 1));
       f \<leftarrow> rd (faces_list w) e2;
       c \<leftarrow> rd (l_face_cells w) f;
       tci \<leftarrow> wr (t_cell_index w) t_id1 (if fst c < t0_c_start then t0_c_start else fst c);
       Some (w\<lparr>t_cell_index := tci\<rparr>)
     } else Some w
   }"

definition renum_face_multipass_redistribute ::
  "int \<Rightarrow> int \<Rightarrow> int \<Rightarrow> rat \<Rightarrow> int \<Rightarrow> mp_arrays \<Rightarrow> mp_arrays option" where
  "renum_face_multipass_redistribute n_i_threads n_g_i_threads g_id relax faces_list_size w =
     (if n_g_i_threads < 2 then Some w
      else if int (length (t_cell_index w)) < n_g_i_threads + 1 then None
      else do {
        let t_cell_index_prev = take (nat (n_g_i_threads + 1)) (t_cell_index w);
        unbalance0 \<leftarrow> renum_face_multipass_g_unbalance n_g_i_threads (n_t_faces w);
        total \<leftarrow> for_loop 0 n_g_i_threads (\<lambda>t_id a. do {
                    v \<leftarrow> rd (n_t_faces w) t_id; Some (a + v) }) 0;
        let n_t_faces_mean = of_int total / of_int n_g_i_threads;
        w1 \<leftarrow> for_loop 0 (n_g_i_threads - 1)
                (redistribute_boundary n_i_threads g_id relax faces_list_size n_t_faces_mean) w;
        w2 \<leftarrow> renum_face_multipass_assign n_i_threads n_g_i_threads g_id faces_list_size w1;
        unbalance1 \<leftarrow> renum_face_multipass_g_unbalance n_g_i_threads (n_t_faces w2);
        if dbl_gt unbalance1 unbalance0 then
          renum_face_multipass_assign n_i_threads n_g_i_threads g_id faces_list_size
            (w2\<lparr>t_cell_index :=
                  t_cell_index_prev @ drop (nat (n_g_i_threads + 1)) (t_cell_index w2)\<rparr>)
        else Some w2
      })"

text \<open>\<^verbatim>\<open>_renum_face_multipass_remaining\<close>: the state is the new cell numbering, the number
  of cells numbered so far and the local face to cells connectivity.\<close>

definition remaining_face ::
  "int list \<Rightarrow> int \<Rightarrow> int list \<times> int \<times> (int \<times> int) list
     \<Rightarrow> (int list \<times> int \<times> (int \<times> int) list) option" where
  "remaining_face fl fl_id s = (case s of (new_cell_id, n_f_cells_new, lfc) \<Rightarrow> do {
     f_id \<leftarrow> rd fl fl_id;
     c \<leftarrow> rd lfc f_id;
     v0 \<leftarrow> rd new_cell_id (fst c);
     s1 \<leftarrow> (if v0 < 0 then do {
              a \<leftarrow> wr new_cell_id (fst c) n_f_cells_new; Some (a, n_f_cells_new + 1) }
            else Some (new_cell_id, n_f_cells_new));
     v1 \<leftarrow> rd (fst s1) (snd c);
     s2 \<leftarrow> (if v1 < 0 then do {
              a \<leftarrow> wr (fst s1) (snd c) (snd s1); Some (a, snd s1 + 1) }
            else Some s1);
     a0 \<leftarrow> rd (fst s2) (fst c);
     a1 \<leftarrow> rd (fst s2) (snd c);
     lfc' \<leftarrow> wr lfc f_id (if a0 < a1 then (a0, a1) else (a1, a0));
     Some (fst s2, snd s2, lfc')
   })"

definition renum_face_multipass_remaining ::
  "int \<Rightarrow> int \<Rightarrow> int list \<Rightarrow> (int \<times> int) list \<Rightarrow> (int \<times> (int \<times> int) list) option" where
  "renum_face_multipass_remaining n_f_cells_prev faces_list_size fl lfc = do {
     r \<leftarrow> for_loop 0 faces_list_size (remaining_face fl)
            (replicate (nat n_f_cells_prev) (- 1), 0, lfc);
     Some (fst (snd r), snd (snd r))
   }"

text \<open>
  \<^verbatim>\<open>_renum_face_multipass\<close>. The number of threads of a pass is the configured number,
  reduced when the remaining faces are few.
\<close>

definition pass_n_g_i_threads :: "int \<Rightarrow> int \<Rightarrow> int \<Rightarrow> int option" where
  "pass_n_g_i_threads n_i_threads min_size faces_list_size = do {
     q \<leftarrow> c_div faces_list_size min_size;
     if q < n_i_threads then do {
       r \<leftarrow> c_mod faces_list_size min_size;
       Some (if r = 0 then q + 1 else q)
     } else Some n_i_threads
   }"

text \<open>
  One round of the loop on \<open>g_id\<close>. The state is \<open>g_id\<close>, the size of the list of
  remaining faces, the number of cells adjacent to them, and the work arrays.
\<close>

type_synonym mp_state = "int \<times> int \<times> int \<times> mp_arrays"

definition multipass_pass :: "int \<Rightarrow> int \<Rightarrow> mp_state \<Rightarrow> mp_state option" where
  "multipass_pass min_size n_i_threads s =
     (case s of (g_id, faces_list_size, n_f_cells, w) \<Rightarrow> do {
        group_size \<leftarrow> c_div n_f_cells n_i_threads;
        n_g_i_threads \<leftarrow> pass_n_g_i_threads n_i_threads min_size faces_list_size;
        tci0 \<leftarrow> wr (t_cell_index w) 0 0;
        tci1 \<leftarrow> for_loop 1 n_g_i_threads (\<lambda>t_id tci. do {
                  p \<leftarrow> rd tci (t_id - 1);
                  wr tci t_id (if p + group_size > n_f_cells then n_f_cells else p + group_size)
                }) tci0;
        tci2 \<leftarrow> wr tci1 n_g_i_threads n_f_cells;
        w1 \<leftarrow> renum_face_multipass_assign n_i_threads n_g_i_threads g_id faces_list_size
                (w\<lparr>t_cell_index := tci2\<rparr>);
        w2 \<leftarrow> renum_face_multipass_redistribute n_i_threads n_g_i_threads g_id (1 / 2)
                faces_list_size w1;
        r \<leftarrow> for_loop 0 faces_list_size (\<lambda>fl_id r. do {
               f_id \<leftarrow> rd (fst r) fl_id;
               tag \<leftarrow> rd (f_t_id w2) f_id;
               if tag < 0 then do { fl \<leftarrow> wr (fst r) (snd r) f_id; Some (fl, snd r + 1) }
               else Some r
             }) (faces_list w2, 0);
        if snd r > 0 then do {
          q \<leftarrow> renum_face_multipass_remaining n_f_cells (snd r) (fst r) (l_face_cells w2);
          Some (g_id + 1, snd r, fst q, w2\<lparr>faces_list := fst r, l_face_cells := snd q\<rparr>)
        } else Some (g_id + 1, snd r, n_f_cells, w2\<lparr>faces_list := fst r\<rparr>)
      })"

text \<open>
  The loop \<^verbatim>\<open>for (g_id = 0; faces_list_size > _min_i_subset_size; g_id++)\<close>. It has no
  bound: a run that never leaves it has the value \<open>None\<close>, undefined behaviour inside a
  round the value \<open>Some None\<close>.
\<close>

partial_function (option) multipass_passes :: "int \<Rightarrow> int \<Rightarrow> mp_state \<Rightarrow> mp_state option option"
where
  "multipass_passes min_size n_i_threads s =
     (if fst (snd s) > min_size then
        (case multipass_pass min_size n_i_threads s of
           None \<Rightarrow> Some None
         | Some s' \<Rightarrow> multipass_passes min_size n_i_threads s')
      else Some (Some s))"

declare multipass_passes.simps [code]

text \<open>The last group takes the faces that are left, on thread 0.\<close>

definition multipass_last_group :: "int \<Rightarrow> mp_state \<Rightarrow> (int \<times> mp_arrays) option" where
  "multipass_last_group n_i_threads s =
     (case s of (g_id, faces_list_size, n_f_cells, w) \<Rightarrow>
        if faces_list_size > 0 then do {
          fti \<leftarrow> for_loop 0 faces_list_size (\<lambda>fl_id fti. do {
                   f_id \<leftarrow> rd (faces_list w) fl_id;
                   wr fti f_id (g_id * n_i_threads)
                 }) (f_t_id w);
          ntf0 \<leftarrow> wr (n_t_faces w) 0 faces_list_size;
          ntf \<leftarrow> for_loop 1 n_i_threads (\<lambda>t_id ntf. wr ntf t_id 0) ntf0;
          Some (g_id + 1, w\<lparr>f_t_id := fti, n_t_faces := ntf\<rparr>)
        } else Some (g_id, w))"

text \<open>
  The final numbering and the group index. Entry \<open>(t_id * n_groups + g_id) * 2\<close> of the
  index is the start of the range of thread \<open>t_id\<close> in group \<open>g_id\<close>, the next entry its
  end.
\<close>

definition multipass_index ::
  "cs_mesh \<Rightarrow> int \<Rightarrow> nat list \<Rightarrow> int \<times> mp_arrays \<Rightarrow> (nat list \<times> int \<times> int list) option" where
  "multipass_index mesh n_i_threads new_to_old_i s = (case s of (n_grps, w) \<Rightarrow> do {
     let n_faces = int (n_i_faces mesh);
     faces_keys \<leftarrow> for_loop 0 n_faces (\<lambda>f_id keys. do {
                     tag \<leftarrow> rd (f_t_id w) f_id;
                     c \<leftarrow> rd (i_face_cells mesh) f_id;
                     Some (keys @ [if fst c < snd c then (tag, int (fst c) - 1, int (snd c) - 1)
                                   else (tag, int (snd c) - 1, int (fst c) - 1)])
                   }) [];
     let fl = map int (cs_order_lnum_allocated_s faces_keys);
     gi0 \<leftarrow> wr (replicate (nat (n_grps * n_i_threads * 2)) 0) 0 0;
     gi1 \<leftarrow> for_loop 0 n_grps (\<lambda>g_id. for_loop 0 n_i_threads (\<lambda>t_id gi. do {
               gi' \<leftarrow> wr gi ((t_id * n_grps + g_id) * 2) (- 1);
               wr gi' ((t_id * n_grps + g_id) * 2 + 1) (- 1)
             })) gi0;
     r \<leftarrow> for_loop 0 n_faces (\<lambda>fl_id r. do {
            f_id \<leftarrow> rd fl fl_id;
            n2o \<leftarrow> wr (fst r) fl_id (nat f_id);
            tag \<leftarrow> rd (f_t_id w) f_id;
            t_id \<leftarrow> c_mod tag n_i_threads;
            g_id \<leftarrow> c_div (tag - t_id) n_i_threads;
            gi \<leftarrow> wr (snd r) ((t_id * n_grps + g_id) * 2 + 1) (fl_id + 1);
            Some (n2o, gi)
          }) (new_to_old_i, gi1);
     q \<leftarrow> for_loop 0 n_grps (\<lambda>g_id. for_loop 0 n_i_threads (\<lambda>t_id q. do {
            gi \<leftarrow> wr (snd q) ((t_id * n_grps + g_id) * 2) (fst q);
            e \<leftarrow> rd gi ((t_id * n_grps + g_id) * 2 + 1);
            Some (max e (fst q), gi)
          })) (0, snd r);
     gi3 \<leftarrow> for_loop 0 n_grps (\<lambda>g_id. for_loop 0 n_i_threads (\<lambda>t_id gi. do {
               e \<leftarrow> rd gi ((t_id * n_grps + g_id) * 2 + 1);
               if e < 0 then wr gi ((t_id * n_grps + g_id) * 2) (- 1) else Some gi
             })) (snd q);
     Some (fst r, n_grps, gi3)
   })"

text \<open>
  The whole function. The outputs \<open>new_to_old_i\<close>, \<open>n_groups\<close> and \<open>group_index\<close> are
  passed in with the values the caller holds and returned with the status. Allocated
  arrays start filled with zeros.
\<close>

definition multipass_init :: "cs_mesh \<Rightarrow> int \<Rightarrow> mp_state option" where
  "multipass_init mesh n_i_threads = do {
     let n_faces = int (n_i_faces mesh);
     lfc \<leftarrow> for_loop 0 n_faces (\<lambda>f_id lfc. do {
              c \<leftarrow> rd (i_face_cells mesh) f_id;
              wr lfc f_id (if fst c < snd c then (int (fst c), int (snd c))
                           else (int (snd c), int (fst c)))
            }) (replicate (n_i_faces mesh) (0, 0));
     Some (0, n_faces, int (n_cells_with_ghosts mesh),
           \<lparr>faces_list = map int (cs_order_lnum_allocated_s lfc),
            l_face_cells = lfc,
            f_t_id = replicate (n_i_faces mesh) (- 1),
            n_t_faces = replicate (nat n_i_threads) 0,
            t_face_last = replicate (nat n_i_threads) 0,
            t_cell_index = replicate (nat (n_i_threads + 1)) 0\<rparr>)
   }"

type_synonym mp_result = "int \<times> nat list \<times> int \<times> int list option"

definition renum_face_multipass ::
  "config \<Rightarrow> cs_mesh \<Rightarrow> int \<Rightarrow> nat list \<Rightarrow> int \<Rightarrow> int list option \<Rightarrow> mp_result option option"
where
  "renum_face_multipass cfg mesh n_i_threads new_to_old_i n_grps grp_index =
     (if int (n_i_faces mesh) \<le> min_i_subset_size cfg then
        Some (Some (- 1, new_to_old_i, n_grps, grp_index))
      else
        (case multipass_init mesh n_i_threads of
           None \<Rightarrow> Some None
         | Some s0 \<Rightarrow>
            (case multipass_passes (min_i_subset_size cfg) n_i_threads s0 of
               None \<Rightarrow> None
             | Some None \<Rightarrow> Some None
             | Some (Some s1) \<Rightarrow>
                 Some (do {
                   s2 \<leftarrow> multipass_last_group n_i_threads s1;
                   r \<leftarrow> multipass_index mesh n_i_threads new_to_old_i s2;
                   Some (0, fst r, fst (snd r), Some (snd (snd r)))
                 }))))"

subsection \<open>Groups of independent faces (the block algorithm)\<close>

text \<open>
  This part is modelled on lists with plain indexing; its theorems assume a well-formed
  connectivity, for which every index is in range. A counted loop is a \<open>fold\<close> over
  the range of its counter.
\<close>

record csr_graph =
  n_rows :: nat
  n_cols_max :: nat
  row_index :: "nat list"
  col_id :: "nat list"

text \<open>\<^verbatim>\<open>_csr_graph_create_cell_face\<close>: count, build the row index, then scatter the face ids.\<close>

definition csr_count :: "(nat \<times> nat) list \<Rightarrow> nat \<Rightarrow> nat list \<Rightarrow> nat list" where
  "csr_count face_cell f_id ccount =
     (let ii = fst (face_cell ! f_id); jj = snd (face_cell ! f_id);
          c1 = ccount[ii := ccount ! ii + 1]
      in c1[jj := c1 ! jj + 1])"

definition csr_index :: "nat list \<Rightarrow> nat \<Rightarrow> nat list \<times> nat \<Rightarrow> nat list \<times> nat" where
  "csr_index ccount ii s =
     ((fst s)[ii + 1 := fst s ! ii + ccount ! ii],
      (if ccount ! ii > snd s then ccount ! ii else snd s))"

definition csr_scatter ::
  "(nat \<times> nat) list \<Rightarrow> nat list \<Rightarrow> nat \<Rightarrow> nat list \<times> nat list \<Rightarrow> nat list \<times> nat list" where
  "csr_scatter face_cell ri f_id s =
     (let ii = fst (face_cell ! f_id); jj = snd (face_cell ! f_id);
          col1 = (fst s)[ri ! ii + snd s ! ii := f_id];
          c1 = (snd s)[ii := snd s ! ii + 1];
          col2 = col1[ri ! jj + c1 ! jj := f_id];
          c2 = c1[jj := c1 ! jj + 1]
      in (col2, c2))"

definition csr_graph_create_cell_face :: "nat \<Rightarrow> nat \<Rightarrow> (nat \<times> nat) list \<Rightarrow> csr_graph" where
  "csr_graph_create_cell_face n_cells_ext n_faces face_cell =
     (let ccount = fold (csr_count face_cell) [0..<n_faces] (replicate n_cells_ext 0);
          ix = fold (csr_index ccount) [0..<n_cells_ext] (replicate (n_cells_ext + 1) 0, 0);
          sc = fold (csr_scatter face_cell (fst ix)) [0..<n_faces]
                 (replicate (fst ix ! n_cells_ext) 0, replicate n_cells_ext 0)
      in \<lparr>n_rows = n_cells_ext, n_cols_max = snd ix, row_index = fst ix, col_id = fst sc\<rparr>)"

text \<open>
  \<^verbatim>\<open>_independent_face_groups\<close>. The test of a candidate face against the faces of the
  current group: for each of them, both rows of the graph are searched for the
  candidate.
\<close>

definition row_has_face :: "csr_graph \<Rightarrow> nat \<Rightarrow> nat \<Rightarrow> bool" where
  "row_has_face g c f_id =
     list_ex (\<lambda>k. col_id g ! k = f_id) [row_index g ! c..<row_index g ! (c + 1)]"

definition face_ok :: "csr_graph \<Rightarrow> (nat \<times> nat) list \<Rightarrow> int list \<Rightarrow> nat \<Rightarrow> nat \<Rightarrow> bool" where
  "face_ok g face_cell group_face_ids g_size f_id =
     list_all (\<lambda>i. let f_cmp = nat (group_face_ids ! i)
                   in \<not> row_has_face g (fst (face_cell ! f_cmp)) f_id
                      \<and> \<not> row_has_face g (snd (face_cell ! f_cmp)) f_id)
       [0..<g_size]"

record ifg_state =
  face_marker :: "int list"
  old_to_new :: "nat list"
  group_face_ids :: "int list"
  g_size :: nat
  first_unmarked_face_id :: nat
  n_marked_faces :: nat
  group_id :: nat
  group_sizes :: "nat list"

definition ifg_add_face :: "nat \<Rightarrow> ifg_state \<Rightarrow> ifg_state" where
  "ifg_add_face f_id s =
     s\<lparr>first_unmarked_face_id :=
          (if first_unmarked_face_id s = f_id then f_id + 1 else first_unmarked_face_id s),
       face_marker := (face_marker s)[f_id := int (group_id s)],
       group_face_ids := (group_face_ids s)[g_size s := int f_id],
       g_size := g_size s + 1,
       old_to_new := (old_to_new s)[f_id := n_marked_faces s],
       n_marked_faces := n_marked_faces s + 1\<rparr>"

text \<open>The loop on the faces, left when the group is complete.\<close>

function ifg_scan ::
  "csr_graph \<Rightarrow> (nat \<times> nat) list \<Rightarrow> nat \<Rightarrow> nat \<Rightarrow> nat \<Rightarrow> ifg_state \<Rightarrow> ifg_state" where
  "ifg_scan g face_cell max_group_size n_faces f_id s =
     (if f_id < n_faces then
        (if face_marker s ! f_id = - 1 then
           (let s' = (if face_ok g face_cell (group_face_ids s) (g_size s) f_id
                      then ifg_add_face f_id s else s)
            in if g_size s' = max_group_size then s'
               else ifg_scan g face_cell max_group_size n_faces (f_id + 1) s')
         else ifg_scan g face_cell max_group_size n_faces (f_id + 1) s)
      else s)"
  by pat_completeness auto
termination
  by (relation "measure (\<lambda>(_, _, _, n_faces, f_id, _). n_faces - f_id)") auto

declare ifg_scan.simps [simp del]

text \<open>One round of the outer loop builds one group; the array of group sizes grows as needed.\<close>

definition ifg_group ::
  "csr_graph \<Rightarrow> (nat \<times> nat) list \<Rightarrow> nat \<Rightarrow> nat \<Rightarrow> ifg_state \<Rightarrow> ifg_state" where
  "ifg_group g face_cell max_group_size n_faces s =
     (let s1 = ifg_scan g face_cell max_group_size n_faces (first_unmarked_face_id s)
                 (s\<lparr>g_size := 0, group_face_ids := replicate max_group_size (- 1)\<rparr>)
      in s1\<lparr>group_sizes := group_sizes s1 @ [g_size s1], group_id := group_id s1 + 1\<rparr>)"

partial_function (option) ifg_groups ::
  "csr_graph \<Rightarrow> (nat \<times> nat) list \<Rightarrow> nat \<Rightarrow> nat \<Rightarrow> ifg_state \<Rightarrow> ifg_state option" where
  "ifg_groups g face_cell max_group_size n_faces s =
     (if n_marked_faces s \<noteq> n_faces
      then ifg_groups g face_cell max_group_size n_faces
             (ifg_group g face_cell max_group_size n_faces s)
      else Some s)"

declare ifg_groups.simps [code]

definition ifg_init :: "nat \<Rightarrow> nat \<Rightarrow> ifg_state" where
  "ifg_init max_group_size n_faces =
     \<lparr>face_marker = replicate n_faces (- 1), old_to_new = [0..<n_faces],
      group_face_ids = replicate max_group_size 0, g_size = 0,
      first_unmarked_face_id = 0, n_marked_faces = 0, group_id = 0, group_sizes = []\<rparr>"

text \<open>The result is the new to old numbering, the number of groups and their sizes;
  \<open>None\<close> stands for an outer loop that does not end.\<close>

definition independent_face_groups ::
  "nat \<Rightarrow> nat \<Rightarrow> nat \<Rightarrow> (nat \<times> nat) list \<Rightarrow> nat list \<Rightarrow> (nat list \<times> nat \<times> nat list) option"
where
  "independent_face_groups max_group_size n_cells_ext n_faces face_cell new_to_old =
     (case ifg_groups (csr_graph_create_cell_face n_cells_ext n_faces face_cell) face_cell
             max_group_size n_faces (ifg_init max_group_size n_faces) of
        None \<Rightarrow> None
      | Some s \<Rightarrow>
          Some (fold (\<lambda>f_id n2o. n2o[old_to_new s ! f_id := f_id]) [0..<n_faces] new_to_old,
                group_id s, group_sizes s))"

text \<open>\<^verbatim>\<open>_thread_bounds_by_group_size\<close>; the state is the running position and the index.\<close>

definition thread_bounds_group ::
  "nat \<Rightarrow> nat \<Rightarrow> nat list \<Rightarrow> nat \<Rightarrow> nat \<times> int list \<Rightarrow> nat \<times> int list" where
  "thread_bounds_group n_grps n_thr group_size g s =
     (let stride = 2 * n_grps;
          j = (group_size ! g) div n_thr;
          jr = (group_size ! g) mod n_thr
      in if j > 4 then
           fold (\<lambda>k s. let ip' = fst s + j + (if k < jr then 1 else 0)
                        in (ip', (snd s)[k * stride + g * 2 := int (fst s),
                                         k * stride + g * 2 + 1 := int ip']))
             [0..<n_thr] s
         else
           (fst s + group_size ! g,
            fold (\<lambda>k gi. gi[k * stride + g * 2 := 0, k * stride + g * 2 + 1 := 0])
              [1..<n_thr]
              ((snd s)[g * 2 := int (fst s), g * 2 + 1 := int (fst s + group_size ! g)])))"

definition thread_bounds_by_group_size ::
  "nat \<Rightarrow> nat \<Rightarrow> nat \<Rightarrow> nat list \<Rightarrow> int list \<Rightarrow> int \<times> int list" where
  "thread_bounds_by_group_size n_faces n_grps n_thr group_size grp_index =
     (let r = fold (thread_bounds_group n_grps n_thr group_size) [0..<n_grps] (0, grp_index)
      in (if fst r \<noteq> n_faces then - 1 else 0, snd r))"

text \<open>
  \<^verbatim>\<open>_renum_i_faces_no_share_cell_in_block\<close>. The first loop lowers the target size by
  steps of 64; from the 1014 that the caller passes it never reaches a divisor of zero.
\<close>

function block_group_size :: "int \<Rightarrow> int \<Rightarrow> int \<Rightarrow> int \<Rightarrow> int" where
  "block_group_size n_faces n_i_threads min_size max_group_size =
     (if n_faces sdiv max_group_size < 2 * n_i_threads \<and> max_group_size > min_size
      then block_group_size n_faces n_i_threads min_size (max_group_size - 64)
      else max_group_size)"
  by pat_completeness auto
termination
  by (relation "measure (\<lambda>(_, _, min_size, m). nat (m - min_size))") auto

declare block_group_size.simps [simp del]

definition renum_i_faces_no_share_cell_in_block ::
  "config \<Rightarrow> cs_mesh \<Rightarrow> int \<Rightarrow> int \<Rightarrow> nat list \<Rightarrow> mp_result option" where
  "renum_i_faces_no_share_cell_in_block cfg mesh n_i_threads max_group_size new_to_old_i =
     (let m0 = block_group_size (int (n_i_faces mesh)) n_i_threads (min_i_subset_size cfg)
                 max_group_size;
          m1 = (if m0 < min_i_subset_size cfg then min_i_subset_size cfg else m0);
          m2 = (if m1 < n_i_threads * 2 then n_i_threads * 2 else m1)
      in case independent_face_groups (nat m2) (n_cells_with_ghosts mesh) (n_i_faces mesh)
                (i_face_cells mesh) new_to_old_i of
           None \<Rightarrow> None
         | Some r \<Rightarrow>
             (let b = thread_bounds_by_group_size (n_i_faces mesh) (fst (snd r))
                        (nat n_i_threads) (snd (snd r))
                        (replicate (nat n_i_threads * fst (snd r) * 2) 0)
              in Some (fst b, fst r, int (fst (snd r)), Some (snd b))))"

subsection \<open>Boundary faces\<close>

text \<open>
  \<^verbatim>\<open>_renum_b_faces_no_share_cell_across_thread\<close>. The inner loop moves the end of a
  range forward while the face at the end lies in the cell \<open>c_id\<close>.
\<close>

function b_push_end :: "nat list \<Rightarrow> nat list \<Rightarrow> int \<Rightarrow> nat \<Rightarrow> int \<Rightarrow> int" where
  "b_push_end bfc new_to_old_b n c_id end_id =
     (if end_id < n \<and> bfc ! (new_to_old_b ! nat end_id) = c_id
      then b_push_end bfc new_to_old_b n c_id (end_id + 1)
      else end_id)"
  by pat_completeness auto
termination
  by (relation "measure (\<lambda>(_, _, n, _, end_id). nat (n - end_id))") auto

declare b_push_end.simps [simp del]

definition b_subset_size :: "nat \<Rightarrow> nat \<Rightarrow> int \<Rightarrow> int" where
  "b_subset_size n n_b_threads min_subset_size =
     max (int (if n mod n_b_threads > 0 then n div n_b_threads + 1 else n div n_b_threads))
         min_subset_size"

definition b_thread_range ::
  "nat list \<Rightarrow> nat list \<Rightarrow> int \<Rightarrow> int \<Rightarrow> nat \<Rightarrow> int \<times> int list \<Rightarrow> int \<times> int list" where
  "b_thread_range bfc new_to_old_b n subset_size t_id s =
     (let start_id = fst s;
          e0 = (int t_id + 1) * subset_size;
          e1 = (if e0 < start_id then start_id else e0);
          e2 = (if e1 > n then n
                else if e1 > 0 \<and> e1 < n
                then b_push_end bfc new_to_old_b n (bfc ! (new_to_old_b ! nat (e1 - 1))) e1
                else e1)
      in (e2, (snd s)[t_id * 2 := start_id, t_id * 2 + 1 := e2]))"

type_synonym b_result = "int \<times> nat list \<times> int \<times> int list"

definition renum_b_faces_no_share_cell_across_thread ::
  "cs_mesh \<Rightarrow> nat \<Rightarrow> int \<Rightarrow> nat list \<Rightarrow> b_result" where
  "renum_b_faces_no_share_cell_across_thread mesh n_b_threads min_subset_size new_to_old_b =
     (let n = n_b_faces mesh;
          fc_num = map (\<lambda>ii. (b_face_cells mesh ! ii, ii)) [0..<n];
          order = cs_order_lnum_allocated_s fc_num;
          n2o = map (\<lambda>ii. order ! ii) [0..<n] @ drop n new_to_old_b;
          subset_size = b_subset_size n n_b_threads min_subset_size;
          r = fold (b_thread_range (b_face_cells mesh) n2o (int n) subset_size) [0..<n_b_threads]
                (0, replicate (n_b_threads * 2) 0)
      in (if n < 1 then - 1 else 0, n2o, 1, snd r))"

subsection \<open>Applying a renumbering to the mesh\<close>

text \<open>\<^verbatim>\<open>_update_family\<close> and \<^verbatim>\<open>_update_global_num\<close>.\<close>

definition update_family :: "nat \<Rightarrow> nat list \<Rightarrow> int list option \<Rightarrow> int list option" where
  "update_family n_elts new_to_old family =
     (case family of
        None \<Rightarrow> None
      | Some old_family \<Rightarrow>
          Some (map (\<lambda>ii. old_family ! (new_to_old ! ii)) [0..<n_elts] @ drop n_elts old_family))"

definition update_global_num :: "nat \<Rightarrow> nat list \<Rightarrow> nat list option \<Rightarrow> nat list option" where
  "update_global_num n_elts new_to_old global_num =
     (case global_num of
        None \<Rightarrow> Some (map (\<lambda>i. new_to_old ! i + 1) [0..<n_elts])
      | Some tmp_global \<Rightarrow>
          Some (map (\<lambda>i. tmp_global ! (new_to_old ! i)) [0..<n_elts] @ drop n_elts tmp_global))"

text \<open>
  \<^verbatim>\<open>_update_face_vertices\<close>; the state of the loop on the faces is the index, the list
  of vertices and \<open>start_id\<close>.
\<close>

definition update_face_vertices_face ::
  "int list \<Rightarrow> int list \<Rightarrow> nat list \<Rightarrow> nat \<Rightarrow> int list \<times> int list \<times> int
     \<Rightarrow> int list \<times> int list \<times> int" where
  "update_face_vertices_face face_vtx_idx_old face_vtx_old new_to_old ii s =
     (case s of (face_vtx_idx, face_vtx, start_id) \<Rightarrow>
        let jj = new_to_old ! ii;
            n_vtx = face_vtx_idx_old ! (jj + 1) - face_vtx_idx_old ! jj;
            start_id_old = face_vtx_idx_old ! jj - 1;
            face_vtx' = fold (\<lambda>kk v. v[nat (start_id + int kk) :=
                                          face_vtx_old ! nat (start_id_old + int kk)])
                          [0..<nat n_vtx] face_vtx
        in (face_vtx_idx[ii + 1 := start_id + n_vtx + 1], face_vtx', start_id + n_vtx))"

definition update_face_vertices ::
  "nat \<Rightarrow> int list \<Rightarrow> int list option \<Rightarrow> nat list \<Rightarrow> int list \<times> int list option" where
  "update_face_vertices n_faces face_vtx_idx face_vtx new_to_old =
     (case face_vtx of
        None \<Rightarrow> (face_vtx_idx, None)
      | Some face_vtx_old \<Rightarrow>
          (let r = fold (update_face_vertices_face face_vtx_idx face_vtx_old new_to_old)
                     [0..<n_faces] (face_vtx_idx[0 := 1], face_vtx_old, 0)
           in (fst r, Some (fst (snd r)))))"

text \<open>
  \<^verbatim>\<open>_cs_renumber_update_faces\<close>. A renumbering array that is \<^verbatim>\<open>NULL\<close> is \<open>None\<close>. The
  notification of the post-processing meshes (\<^verbatim>\<open>cs_post_renum_faces\<close>) acts outside of
  the mesh and is left out.
\<close>

definition update_i_faces :: "cs_mesh \<Rightarrow> nat list \<Rightarrow> cs_mesh" where
  "update_i_faces mesh new_to_old_i =
     (let n = n_i_faces mesh;
          i_face_cells_old = i_face_cells mesh;
          v = update_face_vertices n (i_face_vtx_idx mesh) (i_face_vtx_lst mesh) new_to_old_i
      in mesh\<lparr>i_face_cells :=
                 map (\<lambda>face_id. i_face_cells_old ! (new_to_old_i ! face_id)) [0..<n]
                 @ drop n i_face_cells_old,
               i_face_vtx_idx := fst v,
               i_face_vtx_lst := snd v,
               i_face_family := update_family n new_to_old_i (i_face_family mesh),
               global_i_face_num := update_global_num n new_to_old_i (global_i_face_num mesh)\<rparr>)"

definition update_b_faces :: "cs_mesh \<Rightarrow> nat list \<Rightarrow> cs_mesh" where
  "update_b_faces mesh new_to_old_b =
     (let n = n_b_faces mesh;
          b_face_cells_old = b_face_cells mesh;
          v = update_face_vertices n (b_face_vtx_idx mesh) (b_face_vtx_lst mesh) new_to_old_b
      in mesh\<lparr>b_face_cells :=
                 map (\<lambda>face_id. b_face_cells_old ! (new_to_old_b ! face_id)) [0..<n]
                 @ drop n b_face_cells_old,
               b_face_vtx_idx := fst v,
               b_face_vtx_lst := snd v,
               b_face_family := update_family n new_to_old_b (b_face_family mesh),
               global_b_face_num := update_global_num n new_to_old_b (global_b_face_num mesh)\<rparr>)"

definition cs_renumber_update_faces ::
  "cs_mesh \<Rightarrow> nat list option \<Rightarrow> nat list option \<Rightarrow> cs_mesh" where
  "cs_renumber_update_faces mesh new_to_old_i new_to_old_b =
     (let m1 = (case new_to_old_i of None \<Rightarrow> mesh | Some p \<Rightarrow> update_i_faces mesh p)
      in case new_to_old_b of None \<Rightarrow> m1 | Some p \<Rightarrow> update_b_faces m1 p)"

text \<open>
  \<^verbatim>\<open>_cs_renumber_update_cells\<close>, with checked accesses. The renumbering of the halo and
  the notification of the post-processing meshes act outside of the mesh and are left
  out. First the loop on the cells of the extended neighbourhood.
\<close>

definition update_cells_cell ::
  "int list \<Rightarrow> int list \<Rightarrow> nat list \<Rightarrow> nat list \<Rightarrow> int \<Rightarrow> int list \<times> int list \<times> int
     \<Rightarrow> (int list \<times> int list \<times> int) option" where
  "update_cells_cell cell_cells_idx_old cell_cells_lst_old new_to_old new_cell_id ii s =
     (case s of (idx, lst, start_id) \<Rightarrow> do {
        jj \<leftarrow> rd new_to_old ii;
        a \<leftarrow> rd cell_cells_idx_old (int jj + 1);
        b \<leftarrow> rd cell_cells_idx_old (int jj);
        let n_vis = a - b;
        let start_id_old = b - 1;
        lst' \<leftarrow> for_loop 0 n_vis (\<lambda>kk l. do {
                  c \<leftarrow> rd cell_cells_lst_old (start_id_old + kk);
                  v \<leftarrow> rd new_cell_id (c - 1);
                  wr l (start_id + kk) (int v + 1)
                }) lst;
        idx' \<leftarrow> wr idx (ii + 1) (start_id + n_vis + 1);
        Some (idx', lst', start_id + n_vis)
      })"

definition cs_renumber_update_cells :: "cs_mesh \<Rightarrow> nat list option \<Rightarrow> cs_mesh option" where
  "cs_renumber_update_cells mesh new_to_old_c =
     (case new_to_old_c of
        None \<Rightarrow> Some mesh
      | Some new_to_old \<Rightarrow> do {
          let nc = int (n_cells mesh);
          n1 \<leftarrow> for_loop 0 nc (\<lambda>ii a. do {
                  j \<leftarrow> rd new_to_old ii; wr a (int j) (nat ii) })
                (replicate (n_cells_with_ghosts mesh) 0);
          new_cell_id \<leftarrow> for_loop nc (int (n_cells_with_ghosts mesh))
                           (\<lambda>ii a. wr a ii (nat ii)) n1;
          ifc \<leftarrow> for_loop 0 (int (n_i_faces mesh)) (\<lambda>face_id a. do {
                   c \<leftarrow> rd (i_face_cells mesh) face_id;
                   v0 \<leftarrow> rd new_cell_id (int (fst c));
                   v1 \<leftarrow> rd new_cell_id (int (snd c));
                   wr a face_id (v0, v1)
                 }) (i_face_cells mesh);
          bfc \<leftarrow> (if n_b_faces mesh > 0 then
                    for_loop 0 (int (n_b_faces mesh)) (\<lambda>face_id a. do {
                      c \<leftarrow> rd (b_face_cells mesh) face_id;
                      v \<leftarrow> rd new_cell_id (int c - 1);
                      wr a face_id v
                    }) (b_face_cells mesh)
                  else Some (b_face_cells mesh));
          cc \<leftarrow> (case cell_cells_lst mesh of
                   None \<Rightarrow> Some (cell_cells_idx mesh, None)
                 | Some lst \<Rightarrow> do {
                     sz \<leftarrow> rd (cell_cells_idx mesh) nc;
                     lst_old \<leftarrow> (if int (length lst) < sz - 1 then None
                                 else Some (take (nat (sz - 1)) lst));
                     idx0 \<leftarrow> wr (cell_cells_idx mesh) 0 1;
                     r \<leftarrow> for_loop 0 nc
                            (update_cells_cell (cell_cells_idx mesh) lst_old new_to_old new_cell_id)
                            (idx0, lst, 0);
                     Some (fst r, Some (fst (snd r)))
                   });
          Some (mesh\<lparr>i_face_cells := ifc, b_face_cells := bfc,
                     cell_cells_idx := fst cc, cell_cells_lst := snd cc,
                     cell_family := update_family (n_cells mesh) new_to_old (cell_family mesh),
                     global_cell_num :=
                       update_global_num (n_cells mesh) new_to_old (global_cell_num mesh)\<rparr>)
        })"

subsection \<open>Renumbering for threads\<close>

text \<open>
  Modelled from the spec: \<^verbatim>\<open>cs_numbering_create_threaded\<close> belongs to \<^verbatim>\<open>cs_numbering.c\<close>,
  which is not part of the sources at hand. By the spec the descriptor of a numbering
  holds its kind, the number of threads, the number of groups and the group index.
\<close>

definition cs_numbering_create_threaded :: "int \<Rightarrow> int \<Rightarrow> int list option \<Rightarrow> cs_numbering" where
  "cs_numbering_create_threaded n_thr n_grps grp_index =
     \<lparr>numbering_type = CS_NUMBERING_THREADS, n_threads = n_thr, n_groups = n_grps,
      group_index = (case grp_index of None \<Rightarrow> [] | Some gi \<Rightarrow> gi)\<rparr>"

text \<open>
  \<^verbatim>\<open>_renumber_for_threads\<close>, from the point where the algorithm for the interior faces has
  returned its status and outputs. Logging is left out. First the two places where a
  numbering is attached to the mesh: a status that is not zero falls back to one group
  and one thread, and a numbering is created only for more than one group or thread.
\<close>

definition transfer_i_face_numbering :: "config \<Rightarrow> cs_mesh \<Rightarrow> mp_result \<Rightarrow> cs_mesh" where
  "transfer_i_face_numbering cfg mesh r =
     (case r of (retval, n2o_i, n_i_grps, i_grp_index) \<Rightarrow>
        let n_i_groups' = (if retval \<noteq> 0 then 1 else n_i_grps);
            n_i_threads' = (if retval \<noteq> 0 then 1 else cs_renumber_n_threads cfg);
            i_group_index' = (if retval \<noteq> 0 then None else i_grp_index)
        in if n_i_groups' * n_i_threads' > 1
           then mesh\<lparr>i_face_numbering :=
                       Some (cs_numbering_create_threaded n_i_threads' n_i_groups'
                               i_group_index')\<rparr>
           else mesh)"

definition transfer_b_face_numbering :: "config \<Rightarrow> cs_mesh \<Rightarrow> b_result \<Rightarrow> cs_mesh" where
  "transfer_b_face_numbering cfg mesh b =
     (case b of (retval, n2o_b, n_b_grps, b_grp_index) \<Rightarrow>
        let n_b_groups' = (if retval \<noteq> 0 then 1 else n_b_grps);
            n_b_threads' = (if retval \<noteq> 0 then 1 else cs_renumber_n_threads cfg);
            b_group_index' = (if retval \<noteq> 0 then None else Some b_grp_index)
        in if n_b_groups' * n_b_threads' > 1
           then mesh\<lparr>b_face_numbering :=
                       Some (cs_numbering_create_threaded n_b_threads' n_b_groups'
                               b_group_index')\<rparr>
           else mesh)"

text \<open>
  The renumbering arrays that are kept are those of a status zero; that of the cells is
  never kept (\<open>update_c\<close> is 0), so the renumbering of the faces alone is applied.
\<close>

definition apply_renumbering ::
  "cs_mesh \<Rightarrow> nat list option \<Rightarrow> nat list option \<Rightarrow> nat list option \<Rightarrow> cs_mesh option" where
  "apply_renumbering mesh new_to_old_c new_to_old_i new_to_old_b =
     cs_renumber_update_cells
       (if new_to_old_i \<noteq> None \<or> new_to_old_b \<noteq> None
        then cs_renumber_update_faces mesh new_to_old_i new_to_old_b else mesh)
       new_to_old_c"

definition renumber_for_threads_faces :: "config \<Rightarrow> cs_mesh \<Rightarrow> mp_result \<Rightarrow> cs_mesh option" where
  "renumber_for_threads_faces cfg mesh r =
     (let mesh1 = transfer_i_face_numbering cfg mesh r;
          b = renum_b_faces_no_share_cell_across_thread mesh1
                (nat (cs_renumber_n_threads cfg)) (min_b_subset_size cfg)
                [0..<n_b_faces mesh1];
          mesh2 = transfer_b_face_numbering cfg mesh1 b
      in apply_renumbering mesh2 None
           (if fst r = 0 then Some (fst (snd r)) else None)
           (if fst b = 0 then Some (fst (snd b)) else None))"

text \<open>
  The whole of \<^verbatim>\<open>_renumber_for_threads\<close>: \<open>None\<close> when it does not return, \<open>Some None\<close>
  for undefined behaviour, else the mesh it leaves.
\<close>

definition renumber_for_threads :: "config \<Rightarrow> cs_mesh \<Rightarrow> cs_mesh option option" where
  "renumber_for_threads cfg mesh =
     (if cs_renumber_n_threads cfg < 2 then Some (Some mesh)
      else
        (let n_i_threads = cs_renumber_n_threads cfg;
             max_group_size = 1014;
             new_to_old_i = [0..<n_i_faces mesh];
             interior =
               (case i_faces_algorithm cfg of
                  CS_RENUMBER_I_FACES_BLOCK \<Rightarrow>
                    map_option Some
                      (renum_i_faces_no_share_cell_in_block cfg mesh n_i_threads max_group_size
                         new_to_old_i)
                | CS_RENUMBER_I_FACES_MULTIPASS \<Rightarrow>
                    renum_face_multipass cfg mesh n_i_threads new_to_old_i 1 None
                | CS_RENUMBER_I_FACES_NONE \<Rightarrow> Some (Some (- 1, new_to_old_i, 1, None)))
         in case interior of
              None \<Rightarrow> None
            | Some None \<Rightarrow> Some None
            | Some (Some r) \<Rightarrow> Some (renumber_for_threads_faces cfg mesh r)))"

subsection \<open>The test of a numbering for threads\<close>

text \<open>
  The part of \<^verbatim>\<open>_renumber_test\<close> for interior faces with a numbering of the kind for
  threads: the number it leaves in \<^verbatim>\<open>face_errors[0]\<close>, which is fatal when it is not
  zero. In the code \<^verbatim>\<open>face_errors\<close> is unsigned and a negative difference wraps around;
  here the difference is kept as an integer, which is zero in the same cases.
\<close>

definition renumber_test_count :: "cs_mesh \<Rightarrow> cs_numbering \<Rightarrow> int option" where
  "renumber_test_count mesh nm = do {
     acc \<leftarrow> for_loop 0 (n_groups nm) (\<lambda>g_id. for_loop 0 (n_threads nm) (\<lambda>t_id acc. do {
              s \<leftarrow> rd (group_index nm) ((t_id * n_groups nm + g_id) * 2);
              e \<leftarrow> rd (group_index nm) ((t_id * n_groups nm + g_id) * 2 + 1);
              for_loop s e (\<lambda>f_id acc. do {
                c \<leftarrow> rd (i_face_cells mesh) f_id;
                a0 \<leftarrow> rd acc (int (fst c));
                acc1 \<leftarrow> wr acc (int (fst c)) (a0 + 1);
                a1 \<leftarrow> rd acc1 (int (snd c));
                wr acc1 (int (snd c)) (a1 + 1)
              }) acc
            })) (replicate (n_cells_with_ghosts mesh) (0::int));
     Some (int (n_i_faces mesh) * 2 - sum_list acc)
   }"

definition renumber_test_serial :: "cs_mesh \<Rightarrow> cs_numbering \<Rightarrow> int \<Rightarrow> int option" where
  "renumber_test_serial mesh nm face_errors =
     for_loop 0 (n_groups nm) (\<lambda>g_id fe. do {
       r \<leftarrow> for_loop 0 (n_threads nm) (\<lambda>t_id r. do {
              s \<leftarrow> rd (group_index nm) ((t_id * n_groups nm + g_id) * 2);
              e \<leftarrow> rd (group_index nm) ((t_id * n_groups nm + g_id) * 2 + 1);
              for_loop s e (\<lambda>f_id r. do {
                c \<leftarrow> rd (i_face_cells mesh) f_id;
                a0 \<leftarrow> rd (snd r) (int (fst c));
                a1 \<leftarrow> rd (snd r) (int (snd c));
                acc1 \<leftarrow> wr (snd r) (int (fst c)) t_id;
                acc2 \<leftarrow> wr acc1 (int (snd c)) t_id;
                Some (if (a0 > - 1 \<and> a0 \<noteq> t_id) \<or> (a1 > - 1 \<and> a1 \<noteq> t_id)
                      then fst r + 1 else fst r, acc2)
              }) r
            }) (fe, replicate (n_cells_with_ghosts mesh) (- 1));
       Some (fst r)
     }) face_errors"

definition renumber_test_i_threads :: "cs_mesh \<Rightarrow> cs_numbering \<Rightarrow> int option" where
  "renumber_test_i_threads mesh nm = do {
     fe \<leftarrow> renumber_test_count mesh nm;
     if fe = 0 then renumber_test_serial mesh nm fe else Some fe
   }"

subsection \<open>Properties of a numbering for threads\<close>

text \<open>
  The range of faces of a thread in a group, the cells adjacent to the faces of a range,
  and freedom from conflicts: in every group, two different threads with valid ranges
  touch no common cell. A range that is not valid is marked by \<open>- 1\<close>.
\<close>

definition range_start :: "cs_numbering \<Rightarrow> int \<Rightarrow> int \<Rightarrow> int" where
  "range_start nm g_id t_id = group_index nm ! nat ((t_id * n_groups nm + g_id) * 2)"

definition range_end :: "cs_numbering \<Rightarrow> int \<Rightarrow> int \<Rightarrow> int" where
  "range_end nm g_id t_id = group_index nm ! nat ((t_id * n_groups nm + g_id) * 2 + 1)"

definition range_valid :: "cs_numbering \<Rightarrow> int \<Rightarrow> int \<Rightarrow> bool" where
  "range_valid nm g_id t_id = (0 \<le> range_start nm g_id t_id \<and> 0 \<le> range_end nm g_id t_id)"

definition range_cells :: "cs_mesh \<Rightarrow> cs_numbering \<Rightarrow> int \<Rightarrow> int \<Rightarrow> nat set" where
  "range_cells mesh nm g_id t_id =
     (\<Union>f \<in> {nat (range_start nm g_id t_id)..<nat (range_end nm g_id t_id)}.
        {fst (i_face_cells mesh ! f), snd (i_face_cells mesh ! f)})"

definition conflict_free :: "cs_mesh \<Rightarrow> cs_numbering \<Rightarrow> bool" where
  "conflict_free mesh nm =
     (\<forall>g_id \<in> {0..<n_groups nm}. \<forall>t1 \<in> {0..<n_threads nm}. \<forall>t2 \<in> {0..<n_threads nm}.
        t1 \<noteq> t2 \<and> range_valid nm g_id t1 \<and> range_valid nm g_id t2 \<longrightarrow>
        range_cells mesh nm g_id t1 \<inter> range_cells mesh nm g_id t2 = {})"


subsection \<open>Properties of the ranges of boundary faces\<close>

text \<open>
  The new numbering that \<^verbatim>\<open>_renum_b_faces_no_share_cell_across_thread\<close> leaves in
  \<^verbatim>\<open>new_to_old_b\<close>: the order of the boundary faces by cell, then by face id.
\<close>

definition b_new_to_old :: "cs_mesh \<Rightarrow> nat list \<Rightarrow> nat list" where
  "b_new_to_old mesh new_to_old_b =
     map (\<lambda>ii. cs_order_lnum_allocated_s
                  (map (\<lambda>ii. (b_face_cells mesh ! ii, ii)) [0..<n_b_faces mesh]) ! ii)
       [0..<n_b_faces mesh] @ drop (n_b_faces mesh) new_to_old_b"

text \<open>
  The ranges \<open>[gi ! (2 t), gi ! (2 t + 1))\<close> of \<open>T\<close> threads cover \<open>[0, n)\<close>: the first
  starts at 0, each one starts where the one before ends, the last ends at \<open>n\<close>, and
  every position lies in the range of exactly one thread.
\<close>

definition b_ranges_cover :: "int list \<Rightarrow> nat \<Rightarrow> nat \<Rightarrow> bool" where
  "b_ranges_cover gi T n \<longleftrightarrow>
     length gi = T * 2 \<and> gi ! 0 = 0 \<and> gi ! ((T - 1) * 2 + 1) = int n
     \<and> (\<forall>t<T. gi ! (t * 2) \<le> gi ! (t * 2 + 1))
     \<and> (\<forall>t. t + 1 < T \<longrightarrow> gi ! (t * 2 + 1) = gi ! ((t + 1) * 2))
     \<and> (\<forall>p<n. \<exists>!t. t < T \<and> gi ! (t * 2) \<le> int p \<and> int p < gi ! (t * 2 + 1))"

text \<open>
  No cell is split: two positions whose faces lie in the same cell belong to the same
  thread.
\<close>

definition b_cells_not_split :: "nat list \<Rightarrow> nat list \<Rightarrow> int list \<Rightarrow> nat \<Rightarrow> bool" where
  "b_cells_not_split bfc n2o gi T \<longleftrightarrow>
     (\<forall>t1<T. \<forall>t2<T. \<forall>p q.
        gi ! (t1 * 2) \<le> int p \<and> int p < gi ! (t1 * 2 + 1)
        \<and> gi ! (t2 * 2) \<le> int q \<and> int q < gi ! (t2 * 2 + 1)
        \<and> bfc ! (n2o ! p) = bfc ! (n2o ! q) \<longrightarrow> t1 = t2)"

text \<open>
  The state of the loop on the threads after \<open>k\<close> threads: the end reached and the
  index written so far. Every end written lies on a change of cell, or at 0 or \<open>n\<close>.
\<close>

definition b_inv :: "nat list \<Rightarrow> nat list \<Rightarrow> int \<Rightarrow> int \<Rightarrow> nat \<Rightarrow> nat \<Rightarrow> int \<times> int list \<Rightarrow> bool" where
  "b_inv bfc n2o n ss T k s \<longleftrightarrow>
     length (snd s) = 2 * T \<and> 0 \<le> fst s \<and> fst s \<le> n \<and> min (int k * ss) n \<le> fst s
     \<and> (k = 0 \<longrightarrow> fst s = 0)
     \<and> (0 < k \<longrightarrow> snd s ! 0 = 0 \<and> snd s ! ((k - 1) * 2 + 1) = fst s)
     \<and> (\<forall>t<k. 0 \<le> snd s ! (t * 2) \<and> snd s ! (t * 2) \<le> snd s ! (t * 2 + 1)
              \<and> snd s ! (t * 2 + 1) \<le> n
              \<and> (0 < snd s ! (t * 2 + 1) \<and> snd s ! (t * 2 + 1) < n \<longrightarrow>
                   bfc ! (n2o ! nat (snd s ! (t * 2 + 1) - 1))
                     \<noteq> bfc ! (n2o ! nat (snd s ! (t * 2 + 1)))))
     \<and> (\<forall>t. t + 1 < k \<longrightarrow> snd s ! (t * 2 + 1) = snd s ! ((t + 1) * 2))"

subsection \<open>Properties of the groups of independent faces\<close>

text \<open>
  A connectivity is well formed when the cells of the first \<open>n_faces\<close> faces are below
  \<open>n_cells_ext\<close>.
\<close>

definition cells_ok :: "nat \<Rightarrow> nat \<Rightarrow> (nat \<times> nat) list \<Rightarrow> bool" where
  "cells_ok n_cells_ext n_faces face_cell =
     list_all (\<lambda>f. fst (face_cell ! f) < n_cells_ext \<and> snd (face_cell ! f) < n_cells_ext)
       [0..<n_faces]"

text \<open>
  The number of ends of the first \<open>k\<close> faces that lie in the cell \<open>c\<close>, and the position
  at which the row of \<open>c\<close> starts in the graph of all \<open>m\<close> faces.
\<close>

fun csr_deg :: "(nat \<times> nat) list \<Rightarrow> nat \<Rightarrow> nat \<Rightarrow> nat" where
  "csr_deg face_cell 0 c = 0"
| "csr_deg face_cell (Suc k) c =
     csr_deg face_cell k c + (if fst (face_cell ! k) = c then 1 else 0)
       + (if snd (face_cell ! k) = c then 1 else 0)"

definition csr_off :: "(nat \<times> nat) list \<Rightarrow> nat \<Rightarrow> nat \<Rightarrow> nat" where
  "csr_off face_cell m c = (\<Sum>c' < c. csr_deg face_cell m c')"

text \<open>
  The state of the third loop of \<^verbatim>\<open>_csr_graph_create_cell_face\<close> after \<open>k\<close> faces: the
  counters hold the number of ends seen, and each face seen stands in the rows of its
  two cells.
\<close>

definition csr_scatter_inv ::
  "(nat \<times> nat) list \<Rightarrow> nat \<Rightarrow> nat \<Rightarrow> nat \<Rightarrow> nat list \<times> nat list \<Rightarrow> bool" where
  "csr_scatter_inv fc n m k s \<longleftrightarrow>
     length (fst s) = csr_off fc m n \<and> length (snd s) = n
     \<and> (\<forall>c<n. snd s ! c = csr_deg fc k c)
     \<and> (\<forall>f<k. \<forall>c. fst (fc ! f) = c \<or> snd (fc ! f) = c \<longrightarrow>
           (\<exists>j<csr_deg fc k c. fst s ! (csr_off fc m c + j) = f))"

text \<open>The cells of a face; a list of faces is independent when no two of them share a cell.\<close>

definition face_cells_of :: "(nat \<times> nat) list \<Rightarrow> nat \<Rightarrow> nat set" where
  "face_cells_of fc f = {fst (fc ! f), snd (fc ! f)}"

definition independent_faces :: "(nat \<times> nat) list \<Rightarrow> nat list \<Rightarrow> bool" where
  "independent_faces fc G \<longleftrightarrow>
     (\<forall>f\<in>set G. \<forall>f'\<in>set G. f \<noteq> f' \<longrightarrow> face_cells_of fc f \<inter> face_cells_of fc f' = {})"

text \<open>
  The state of \<^verbatim>\<open>_independent_face_groups\<close> inside a round: \<open>L\<close> lists the faces of
  the groups already closed, in the order in which they were marked, and \<open>G\<close> the faces
  of the group under construction. Between two rounds the groups closed so far are
  \<open>groups\<close>.
\<close>

definition ifg_inv ::
  "nat \<Rightarrow> nat \<Rightarrow> ifg_state \<Rightarrow> nat list \<Rightarrow> nat list \<Rightarrow> bool" where
  "ifg_inv mx m s L G \<longleftrightarrow>
     length (face_marker s) = m \<and> length (old_to_new s) = m
     \<and> length (group_face_ids s) = mx
     \<and> (\<forall>f<m. face_marker s ! f \<noteq> - 1 \<longleftrightarrow> f \<in> set (L @ G))
     \<and> set (L @ G) \<subseteq> {0..<m} \<and> distinct (L @ G)
     \<and> n_marked_faces s = length (L @ G)
     \<and> (\<forall>p<length (L @ G). old_to_new s ! ((L @ G) ! p) = p)
     \<and> g_size s = length G \<and> length G \<le> mx
     \<and> (\<forall>i<length G. group_face_ids s ! i = int (G ! i))
     \<and> (\<forall>f<first_unmarked_face_id s. f \<in> set (L @ G))
     \<and> first_unmarked_face_id s \<le> m"

definition ifg_outer_inv ::
  "(nat \<times> nat) list \<Rightarrow> nat \<Rightarrow> nat \<Rightarrow> ifg_state \<Rightarrow> nat list list \<Rightarrow> bool" where
  "ifg_outer_inv fc mx m s groups \<longleftrightarrow>
     ifg_inv mx m (s\<lparr>g_size := 0, group_face_ids := replicate mx (- 1)\<rparr>) (concat groups) []
     \<and> group_id s = length groups \<and> group_sizes s = map length groups
     \<and> (\<forall>G\<in>set groups. G \<noteq> [] \<and> length G \<le> mx \<and> independent_faces fc G)"

subsection \<open>Properties of the multipass work arrays\<close>

text \<open>
  What a call of \<^verbatim>\<open>_renum_face_multipass_assign\<close> or
  \<^verbatim>\<open>_renum_face_multipass_redistribute\<close> for group \<open>g\<close> may change: the list of faces is
  kept, the arrays keep their sizes, and the tag of a face changes only for a face among
  the first \<open>fls\<close> of the list, to \<open>- 1\<close> or to a tag of group \<open>g\<close>.
\<close>

definition mp_step_rel :: "int \<Rightarrow> int \<Rightarrow> int \<Rightarrow> mp_arrays \<Rightarrow> mp_arrays \<Rightarrow> bool" where
  "mp_step_rel n_thr g fls w w' \<longleftrightarrow>
     faces_list w' = faces_list w
     \<and> length (t_cell_index w') = length (t_cell_index w)
     \<and> length (n_t_faces w') = length (n_t_faces w)
     \<and> length (f_t_id w') = length (f_t_id w)
     \<and> (\<forall>f<length (f_t_id w).
           f_t_id w' ! f = f_t_id w ! f
           \<or> ((\<exists>i. 0 \<le> i \<and> i < fls \<and> faces_list w ! nat i = int f)
              \<and> (f_t_id w' ! f = - 1
                 \<or> (g * n_thr \<le> f_t_id w' ! f \<and> f_t_id w' ! f < g * n_thr + n_thr))))"

text \<open>
  The loop that moves the faces still without a thread to the front of the list, after
  \<open>i\<close> faces: the count is at most \<open>i\<close>, the entries from \<open>i\<close> on are untouched, the
  entries below the count come from the first \<open>i\<close> entries of the old list, and every
  such entry with a negative tag is among them.
\<close>

definition compact_inv :: "int list \<Rightarrow> int list \<Rightarrow> int \<Rightarrow> int list \<times> int \<Rightarrow> bool" where
  "compact_inv tags fl0 i r \<longleftrightarrow>
     0 \<le> snd r \<and> snd r \<le> i \<and> length (fst r) = length fl0
     \<and> (\<forall>p\<ge>nat i. fst r ! p = fl0 ! p)
     \<and> (\<forall>k<nat (snd r). \<exists>j<nat i. fst r ! k = fl0 ! j)
     \<and> (\<forall>j<nat i. tags ! nat (fl0 ! j) < 0 \<longrightarrow> (\<exists>k<nat (snd r). fst r ! k = fl0 ! j))"

text \<open>
  The state of the loop on the passes for \<open>n\<close> interior faces: the tags are \<open>- 1\<close> or
  tags of the groups built so far, the first \<open>faces_list_size\<close> entries of the list are
  faces, and every face without a thread is among them.
\<close>

definition mp_inv :: "nat \<Rightarrow> int \<Rightarrow> mp_state \<Rightarrow> bool" where
  "mp_inv n n_thr s \<longleftrightarrow> (case s of (g, fls, nfc, w) \<Rightarrow>
     0 \<le> g \<and> 0 \<le> fls \<and> fls \<le> int n \<and> length (f_t_id w) = n \<and> length (faces_list w) = n
     \<and> length (n_t_faces w) = nat n_thr \<and> int (length (t_cell_index w)) = n_thr + 1
     \<and> (\<forall>f<n. - 1 \<le> f_t_id w ! f \<and> f_t_id w ! f < g * n_thr)
     \<and> (\<forall>i<nat fls. 0 \<le> faces_list w ! i \<and> faces_list w ! i < int n)
     \<and> (\<forall>f<n. f_t_id w ! f = - 1 \<longrightarrow> (\<exists>i<nat fls. faces_list w ! i = int f)))"

subsection \<open>Well-formed connectivity\<close>


subsection \<open>Example meshes\<close>

text \<open>A mesh given by its connectivity alone, with no optional array and no numbering.\<close>

definition mesh_of_faces :: "nat \<Rightarrow> (nat \<times> nat) list \<Rightarrow> nat list \<Rightarrow> cs_mesh" where
  "mesh_of_faces nc ifc bfc =
     \<lparr>n_cells = nc, n_cells_with_ghosts = nc, n_i_faces = length ifc, n_b_faces = length bfc,
      i_face_cells = ifc, b_face_cells = bfc, i_face_vtx_idx = [], i_face_vtx_lst = None,
      b_face_vtx_idx = [], b_face_vtx_lst = None, cell_cells_idx = [], cell_cells_lst = None,
      cell_family = None, i_face_family = None, b_face_family = None, global_cell_num = None,
      global_i_face_num = None, global_b_face_num = None, i_face_numbering = None,
      b_face_numbering = None\<rparr>"

definition multipass_config :: "int \<Rightarrow> int \<Rightarrow> config" where
  "multipass_config n_thr min_size =
     \<lparr>cs_renumber_n_threads = n_thr, min_i_subset_size = min_size, min_b_subset_size = 64,
      i_faces_algorithm = CS_RENUMBER_I_FACES_MULTIPASS\<rparr>"

text \<open>Three cells in a row, the middle one being cell 0.\<close>

definition row_mesh :: cs_mesh where
  "row_mesh = mesh_of_faces 3 [(0, 1), (0, 2)] []"

definition row_arrays :: mp_arrays where
  "row_arrays =
     \<lparr>faces_list = [0, 1], l_face_cells = [(0, 1), (0, 2)], f_t_id = [- 1, - 1],
      n_t_faces = [0, 0], t_face_last = [2, 2], t_cell_index = [0, 1, 3]\<rparr>"

text \<open>
  A star: cell 0 with the neighbours 1, 2 and 3, in a mesh of 8 cells. The arrays are
  those of the first pass with two threads, after the initial assignment and after the
  redistribution.
\<close>

definition star_mesh :: cs_mesh where
  "star_mesh = mesh_of_faces 8 [(0, 2), (3, 0), (1, 0)] []"

definition star_arrays :: mp_arrays where
  "star_arrays =
     \<lparr>faces_list = [2, 0, 1], l_face_cells = [(0, 2), (0, 3), (0, 1)], f_t_id = [0, 0, 0],
      n_t_faces = [3, 0], t_face_last = [2, 3], t_cell_index = [0, 4, 8]\<rparr>"

definition star_arrays_after :: mp_arrays where
  "star_arrays_after =
     \<lparr>faces_list = [2, 0, 1], l_face_cells = [(0, 2), (0, 3), (0, 1)], f_t_id = [- 1, - 1, - 1],
      n_t_faces = [0, 0], t_face_last = [3, 3], t_cell_index = [0, 1, 8]\<rparr>"

text \<open>
  A mesh of 11 cells and 10 interior faces, with what the renumbering for 4 threads
  leaves of it.
\<close>

definition conflict_mesh :: cs_mesh where
  "conflict_mesh =
     mesh_of_faces 11
       [(5, 10), (5, 8), (2, 8), (3, 5), (1, 9), (10, 2), (3, 8), (0, 7), (4, 0), (6, 0)] []"

definition conflict_numbering :: cs_numbering where
  "conflict_numbering =
     \<lparr>numbering_type = CS_NUMBERING_THREADS, n_threads = 4, n_groups = 4,
      group_index =
        [- 1, - 1, 0, 1, - 1, - 1, - 1, - 1,
         - 1, - 1, 1, 3, - 1, - 1, - 1, - 1,
         - 1, - 1, - 1, - 1, - 1, - 1, 8, 10,
         - 1, - 1, 3, 7, 7, 8, - 1, - 1]\<rparr>"

definition conflict_mesh_renumbered :: cs_mesh where
  "conflict_mesh_renumbered =
     (mesh_of_faces 11
        [(4, 0), (1, 9), (2, 8), (3, 5), (3, 8), (5, 8), (5, 10), (10, 2), (6, 0), (0, 7)] [])
     \<lparr>global_i_face_num := Some [9, 5, 3, 4, 7, 2, 1, 6, 10, 8],
      i_face_numbering := Some conflict_numbering\<rparr>"


text \<open>Six cells in a row: 5 interior faces and a boundary face at each end.\<close>

definition six_cell_mesh :: cs_mesh where
  "six_cell_mesh = mesh_of_faces 6 [(0, 1), (1, 2), (2, 3), (3, 4), (4, 5)] [0, 5]"

text \<open>
  Ten boundary faces. In the first mesh two of them lie in cell 3, the faces at the
  positions 3 and 4 of the order by cell; in the second mesh three of them do, at the
  positions 3, 4 and 5.
\<close>

definition ten_b_faces_mesh :: cs_mesh where
  "ten_b_faces_mesh = mesh_of_faces 9 [] [3, 0, 1, 2, 3, 4, 5, 6, 7, 8]"

definition three_b_faces_one_cell_mesh :: cs_mesh where
  "three_b_faces_one_cell_mesh = mesh_of_faces 8 [] [3, 0, 1, 3, 2, 3, 4, 5, 6, 7]"

text \<open>Four cells in a row: three interior faces, the middle one sharing a cell with both others.\<close>

definition path_faces :: "(nat \<times> nat) list" where
  "path_faces = [(0, 1), (1, 2), (2, 3)]"


text \<open>
  Thirteen cells in a row. With 4 threads and a minimum subset size of 3 the first pass
  of the multipass algorithm leaves the faces 2, 5 and 8, which go to the last group. The
  two states are those before the first pass and after it.
\<close>

definition chain_mesh :: cs_mesh where
  "chain_mesh =
     mesh_of_faces 13
       [(0, 1), (1, 2), (2, 3), (3, 4), (4, 5), (5, 6), (6, 7), (7, 8), (8, 9), (9, 10),
        (10, 11), (11, 12)] []"

definition chain_state0 :: mp_state where
  "chain_state0 =
     (0, 12, 13,
      \<lparr>faces_list = [0, 1, 2, 3, 4, 5, 6, 7, 8, 9, 10, 11],
       l_face_cells = [(0, 1), (1, 2), (2, 3), (3, 4), (4, 5), (5, 6), (6, 7), (7, 8),
                       (8, 9), (9, 10), (10, 11), (11, 12)],
       f_t_id = [- 1, - 1, - 1, - 1, - 1, - 1, - 1, - 1, - 1, - 1, - 1, - 1],
       n_t_faces = [0, 0, 0, 0], t_face_last = [0, 0, 0, 0],
       t_cell_index = [0, 0, 0, 0, 0]\<rparr>)"

definition chain_state1 :: mp_state where
  "chain_state1 =
     (1, 3, 6,
      \<lparr>faces_list = [2, 5, 8, 3, 4, 5, 6, 7, 8, 9, 10, 11],
       l_face_cells = [(0, 1), (1, 2), (0, 1), (3, 4), (4, 5), (2, 3), (6, 7), (7, 8),
                       (4, 5), (9, 10), (10, 11), (11, 12)],
       f_t_id = [0, 0, - 1, 1, 1, - 1, 2, 2, - 1, 3, 3, 3],
       n_t_faces = [2, 2, 2, 3], t_face_last = [1, 4, 7, 11],
       t_cell_index = [0, 3, 6, 9, 13]\<rparr>)"

section \<open>Theorems\<close>

subsection \<open>Counted loops\<close>

text \<open>
  An invariant that holds before a counted loop and is kept by every round of its body
  holds when the loop returns; and when every round of the body returns from a state
  with the invariant, so does the loop.
\<close>

lemma for_loop_inv_aux:
  "for_loop i n body s = Some r \<Longrightarrow> a \<le> i \<Longrightarrow> i \<le> n \<Longrightarrow> P i s \<Longrightarrow>
   (\<forall>i s s'. a \<le> i \<and> i < n \<and> P i s \<and> body i s = Some s' \<longrightarrow> P (i + 1) s') \<Longrightarrow> P n r"
proof (induction i n body s rule: for_loop.induct)
  case (1 i n body s)
  show ?case
  proof (cases "i < n")
    case True
    with "1.prems"(1) obtain s' where s': "body i s = Some s'"
      "for_loop (i + 1) n body s' = Some r"
      by (auto simp: for_loop.simps[of i n body s] bind_eq_Some_conv)
    have "P (i + 1) s'" using "1.prems"(2,4,5) True s'(1) by blast
    then show ?thesis
      using "1.IH"[OF True s'(1) s'(2)] "1.prems"(2,5) True by simp
  next
    case False
    with "1.prems"(1) have "r = s" by (simp add: for_loop.simps[of i n body s])
    moreover have "i = n" using False "1.prems"(3) by simp
    ultimately show ?thesis using "1.prems"(4) by simp
  qed
qed

lemma for_loop_inv:
  assumes "for_loop a n body s = Some r" "a \<le> n" "P a s"
    and "\<And>i s s'. a \<le> i \<Longrightarrow> i < n \<Longrightarrow> P i s \<Longrightarrow> body i s = Some s' \<Longrightarrow> P (i + 1) s'"
  shows "P n r"
  using for_loop_inv_aux[OF assms(1) order_refl assms(2), of P] assms(3,4) by blast

text \<open>
  The end of \<^verbatim>\<open>_renum_face_multipass\<close>: the faces are ordered by their keys, and the loop
  that fills the group index copies that order to the first \<open>n_i_faces\<close> entries of
  \<^verbatim>\<open>new_to_old_i\<close>.
\<close>

lemma for_loop_total_aux:
  "a \<le> i \<Longrightarrow> i \<le> n \<Longrightarrow> P i s \<Longrightarrow>
   (\<forall>i s. a \<le> i \<and> i < n \<and> P i s \<longrightarrow> (\<exists>s'. body i s = Some s' \<and> P (i + 1) s')) \<Longrightarrow>
   \<exists>r. for_loop i n body s = Some r \<and> P n r"
proof (induction i n body s rule: for_loop.induct)
  case (1 i n body s)
  show ?case
  proof (cases "i < n")
    case True
    with "1.prems" obtain s' where s': "body i s = Some s'" "P (i + 1) s'" by blast
    have "\<exists>r. for_loop (i + 1) n body s' = Some r \<and> P n r"
      using "1.IH"[OF True s'(1)] "1.prems"(1,4) True s'(2) by simp
    then show ?thesis
      using True s'(1) by (simp add: for_loop.simps[of i n body s])
  next
    case False
    then have e: "for_loop i n body s = Some s" by (simp add: for_loop.simps[of i n body s])
    have "i = n" using False "1.prems"(2) by simp
    then have "P n s" using "1.prems"(3) by simp
    then show ?thesis unfolding e by simp
  qed
qed

lemma for_loop_total:
  assumes "a \<le> n" "P a s"
    and "\<And>i s. a \<le> i \<Longrightarrow> i < n \<Longrightarrow> P i s \<Longrightarrow> \<exists>s'. body i s = Some s' \<and> P (i + 1) s'"
  shows "\<exists>r. for_loop a n body s = Some r \<and> P n r"
  using for_loop_total_aux[OF order_refl assms(1), of P s body] assms(2,3) by blast

subsection \<open>The number of threads of a pass\<close>

text \<open>
  C9. The claim: in a pass whose remaining face count divided by the minimum subset size
  is below the configured thread count, the number of active threads times the minimum
  subset size is at most the remaining face count. The code adds one thread when the
  remaining count is an exact multiple of the minimum size: with 128 remaining faces, a
  minimum of 64 and 4 configured threads the pass runs 3 threads, for which 192 faces
  would be needed; with 127 faces it runs 1 thread and with 129 faces 2.
\<close>

theorem pass_threads_exact_multiple:
  "pass_n_g_i_threads 4 64 128 = Some 3 \<and> \<not> (3 * 64 \<le> (128::int))
   \<and> pass_n_g_i_threads 4 64 127 = Some 1 \<and> pass_n_g_i_threads 4 64 129 = Some 2"
  by (simp add: pass_n_g_i_threads_def c_div_def c_mod_def signed_divide_int_def
        signed_modulo_int_def)

subsection \<open>The loop on the passes\<close>

text \<open>
  On the row of three cells with two threads and a minimum subset size of 1, a pass
  assigns no face and leaves the arrays as they are, whatever the group id.
\<close>

lemma row_init:
  "multipass_init row_mesh 2 =
     Some (0, 2, 3, row_arrays\<lparr>t_face_last := [0, 0], t_cell_index := [0, 0, 0]\<rparr>)"
  by code_simp

lemma row_first_pass:
  "multipass_pass 1 2 (0, 2, 3, row_arrays\<lparr>t_face_last := [0, 0], t_cell_index := [0, 0, 0]\<rparr>)
     = Some (1, 2, 3, row_arrays)"
  by code_simp

lemma row_pass: "multipass_pass 1 2 (g, 2, 3, row_arrays) = Some (g + 1, 2, 3, row_arrays)"
  apply (simp add: multipass_pass_def pass_n_g_i_threads_def c_div_def c_mod_def row_arrays_def
      for_loop.simps)
  apply (simp add: rd_def wr_def renum_face_multipass_assign_def assign_face_def
      renum_face_multipass_redistribute_def renum_face_multipass_g_unbalance_def
      redistribute_boundary_def c_trunc_def renum_face_multipass_remaining_def
      remaining_face_def for_loop.simps assign_next_thread.simps)
  done

lemma row_passes_no_result:
  assumes "multipass_passes m n s = Some y"
  shows "m = 1 \<and> n = 2 \<and> (\<exists>g. s = (g, 2, 3, row_arrays)) \<longrightarrow> False"
proof (rule multipass_passes.raw_induct
         [where P = "\<lambda>m n s y. m = 1 \<and> n = 2 \<and> (\<exists>g. s = (g, 2, 3, row_arrays)) \<longrightarrow> False",
          OF _ assms])
  fix f :: "int \<Rightarrow> int \<Rightarrow> mp_state \<Rightarrow> mp_state option option" and m n s y
  assume IH: "\<And>m n s y. f m n s = Some y \<Longrightarrow>
                 m = 1 \<and> n = 2 \<and> (\<exists>g. s = (g, 2, 3, row_arrays)) \<longrightarrow> False"
    and body: "(if m < fst (snd s)
                then case multipass_pass m n s of None \<Rightarrow> Some None | Some s' \<Rightarrow> f m n s'
                else Some (Some s)) = Some y"
  show "m = 1 \<and> n = 2 \<and> (\<exists>g. s = (g, 2, 3, row_arrays)) \<longrightarrow> False"
  proof
    assume a: "m = 1 \<and> n = 2 \<and> (\<exists>g. s = (g, 2, 3, row_arrays))"
    then obtain g where s: "s = (g, 2, 3, row_arrays)" by blast
    from body a have "f 1 2 (g + 1, 2, 3, row_arrays) = Some y"
      by (simp add: s row_pass)
    from IH[OF this] show False by blast
  qed
qed

lemma row_passes_diverge: "multipass_passes 1 2 (g, 2, 3, row_arrays) = None"
  using row_passes_no_result[of 1 2 "(g, 2, 3, row_arrays)"]
  by (cases "multipass_passes 1 2 (g, 2, 3, row_arrays)") auto

text \<open>
  C8. The claim: the loop on the passes ends for every mesh with more interior faces than
  the minimum subset size and at least one thread, each pass assigning at least one
  face. On the row of three cells (2 interior faces, 2 threads, minimum subset size 1)
  the first pass assigns no face, every later pass starts from the same arrays, and
  \<^verbatim>\<open>_renum_face_multipass\<close> does not return.
\<close>

theorem multipass_diverges:
  "renum_face_multipass (multipass_config 2 1) row_mesh 2 [0, 1] 1 None = None
   \<and> multipass_pass 1 2 (1, 2, 3, row_arrays) = Some (2, 2, 3, row_arrays)
   \<and> f_t_id row_arrays = [- 1, - 1]"
proof -
  have a: "min_i_subset_size (multipass_config 2 1) = 1" "n_i_faces row_mesh = 2"
    by (simp_all add: multipass_config_def row_mesh_def mesh_of_faces_def)
  have "multipass_passes 1 2
          (0, 2, 3, row_arrays\<lparr>t_face_last := [0, 0], t_cell_index := [0, 0, 0]\<rparr>)
        = multipass_passes 1 2 (1, 2, 3, row_arrays)"
    by (subst multipass_passes.simps) (simp add: row_first_pass)
  then have "renum_face_multipass (multipass_config 2 1) row_mesh 2 [0, 1] 1 None = None"
    by (simp add: renum_face_multipass_def a row_init row_passes_diverge)
  moreover have "multipass_pass 1 2 (1, 2, 3, row_arrays) = Some (2, 2, 3, row_arrays)"
    using row_pass[of 1] by simp
  moreover have "f_t_id row_arrays = [- 1, - 1]"
    by (simp add: row_arrays_def)
  ultimately show ?thesis by blast
qed

subsection \<open>Redistribution\<close>

text \<open>
  C4. The claim: with two or more active threads, the imbalance of the assignment that
  \<^verbatim>\<open>_renum_face_multipass_redistribute\<close> leaves is at most the imbalance of the assignment
  it was given. On the star with two threads the initial assignment gives the three faces
  to thread 0 (imbalance 1). Redistribution moves the boundary from cell 4 to cell 1,
  after which no face lies inside a block: the new imbalance is 0/0, not a number, the
  test \<^verbatim>\<open>unbalance[1] > unbalance[0]\<close> is false and the new boundaries are kept with no
  face assigned. The pass of \<^verbatim>\<open>_renum_face_multipass\<close> on that mesh ends with its three
  faces still in the list.
\<close>

theorem redistribute_not_reverted:
  "renum_face_multipass_assign 2 2 0 3
       (star_arrays\<lparr>f_t_id := [- 1, - 1, - 1], n_t_faces := [0, 0], t_face_last := [0, 0]\<rparr>)
     = Some star_arrays
   \<and> renum_face_multipass_redistribute 2 2 0 (1 / 2) 3 star_arrays = Some star_arrays_after
   \<and> renum_face_multipass_g_unbalance 2 (n_t_faces star_arrays) = Some (Fin 1)
   \<and> renum_face_multipass_g_unbalance 2 (n_t_faces star_arrays_after) = Some NaN
   \<and> \<not> dbl_le NaN (Fin 1)
   \<and> n_t_faces star_arrays_after = [0, 0]
   \<and> map_option (\<lambda>s. fst (snd s)) (multipass_init star_mesh 2 \<bind> multipass_pass 1 2) = Some 3"
  by code_simp

subsection \<open>Conflicts between threads\<close>

lemma conflict_mesh_multipass:
  "renum_face_multipass (multipass_config 4 1) conflict_mesh 4 [0..<n_i_faces conflict_mesh] 1 None
     = Some (Some (0, [8, 4, 2, 3, 6, 1, 0, 5, 9, 7], 4, Some (group_index conflict_numbering)))"
  by code_simp

lemma conflict_mesh_faces:
  "renumber_for_threads_faces (multipass_config 4 1) conflict_mesh
     (0, [8, 4, 2, 3, 6, 1, 0, 5, 9, 7], 4, Some (group_index conflict_numbering))
     = Some conflict_mesh_renumbered"
proof -
  let ?m1 = "conflict_mesh\<lparr>i_face_numbering := Some conflict_numbering\<rparr>"
  have b1: "transfer_i_face_numbering (multipass_config 4 1) conflict_mesh
              (0, [8, 4, 2, 3, 6, 1, 0, 5, 9, 7], 4, Some (group_index conflict_numbering)) = ?m1"
    by code_simp
  have b2: "renum_b_faces_no_share_cell_across_thread ?m1
              (nat (cs_renumber_n_threads (multipass_config 4 1)))
              (min_b_subset_size (multipass_config 4 1)) [0..<n_b_faces ?m1]
            = (- 1, [], 1, [0, 0, 0, 0, 0, 0, 0, 0])"
    by code_simp
  have b3: "transfer_b_face_numbering (multipass_config 4 1) ?m1
              (- 1, [], 1, [0, 0, 0, 0, 0, 0, 0, 0]) = ?m1"
    by code_simp
  have b4: "apply_renumbering ?m1 None (Some [8, 4, 2, 3, 6, 1, 0, 5, 9, 7]) None
            = Some conflict_mesh_renumbered"
    by code_simp
  show ?thesis
    unfolding renumber_for_threads_faces_def Let_def b1 b2 b3 using b4 by simp
qed

lemma conflict_mesh_result:
  "renumber_for_threads (multipass_config 4 1) conflict_mesh = Some (Some conflict_mesh_renumbered)"
proof -
  have "cs_renumber_n_threads (multipass_config 4 1) = 4"
    "i_faces_algorithm (multipass_config 4 1) = CS_RENUMBER_I_FACES_MULTIPASS"
    by (simp_all add: multipass_config_def)
  then show ?thesis
    unfolding renumber_for_threads_def Let_def
    by (simp add: conflict_mesh_multipass conflict_mesh_faces del: One_nat_def)
qed

lemma conflict_mesh_cell_8:
  "8 \<in> range_cells conflict_mesh_renumbered conflict_numbering 1 1"
  "8 \<in> range_cells conflict_mesh_renumbered conflict_numbering 1 3"
  by (auto simp: range_cells_def range_start_def range_end_def conflict_numbering_def
        conflict_mesh_renumbered_def mesh_of_faces_def intro: bexI[of _ 2] bexI[of _ 4])

lemma conflict_mesh_valid:
  "range_valid conflict_numbering 1 1" "range_valid conflict_numbering 1 3"
  by (simp_all add: range_valid_def range_start_def range_end_def conflict_numbering_def)

lemma conflict_mesh_not_conflict_free:
  "\<not> conflict_free conflict_mesh_renumbered conflict_numbering"
proof
  have n: "n_groups conflict_numbering = 4" "n_threads conflict_numbering = 4"
    by (simp_all add: conflict_numbering_def)
  assume "conflict_free conflict_mesh_renumbered conflict_numbering"
  then have "\<forall>g_id \<in> {0..<4}. \<forall>t1 \<in> {0..<4}. \<forall>t2 \<in> {0..<4}.
      t1 \<noteq> t2 \<and> range_valid conflict_numbering g_id t1 \<and> range_valid conflict_numbering g_id t2
      \<longrightarrow> range_cells conflict_mesh_renumbered conflict_numbering g_id t1
          \<inter> range_cells conflict_mesh_renumbered conflict_numbering g_id t2 = {}"
    by (simp add: conflict_free_def n)
  then have "\<forall>t1 \<in> {0..<4}. \<forall>t2 \<in> {0..<4}.
      t1 \<noteq> t2 \<and> range_valid conflict_numbering 1 t1 \<and> range_valid conflict_numbering 1 t2
      \<longrightarrow> range_cells conflict_mesh_renumbered conflict_numbering 1 t1
          \<inter> range_cells conflict_mesh_renumbered conflict_numbering 1 t2 = {}"
    by (rule bspec) simp
  then have "\<forall>t2 \<in> {0..<4}.
      1 \<noteq> t2 \<and> range_valid conflict_numbering 1 1 \<and> range_valid conflict_numbering 1 t2
      \<longrightarrow> range_cells conflict_mesh_renumbered conflict_numbering 1 1
          \<inter> range_cells conflict_mesh_renumbered conflict_numbering 1 t2 = {}"
    by (rule bspec) simp
  then have "1 \<noteq> (3::int) \<and> range_valid conflict_numbering 1 1
        \<and> range_valid conflict_numbering 1 3
      \<longrightarrow> range_cells conflict_mesh_renumbered conflict_numbering 1 1
          \<inter> range_cells conflict_mesh_renumbered conflict_numbering 1 3 = {}"
    by (rule bspec) simp
  with conflict_mesh_valid conflict_mesh_cell_8 show False by auto
qed

text \<open>
  C1. The claim: in the group and thread index that the multipass algorithm produces, the
  cells adjacent to the faces of two different threads of one group are disjoint. For the
  mesh of 11 cells with 4 threads and a minimum subset size of 1, the renumbering
  returns an index in which, in group 1, thread 1 holds the faces 1 and 2 and thread 3 the
  faces 3 to 6 of the renumbered mesh: face 2 of thread 1 and faces 4 and 5 of thread 3
  all touch cell 8. The test of the numbering (\<^verbatim>\<open>_renumber_test\<close>) counts one error on it.
\<close>

theorem multipass_conflict:
  "renumber_for_threads (multipass_config 4 1) conflict_mesh = Some (Some conflict_mesh_renumbered)
   \<and> i_face_numbering conflict_mesh_renumbered = Some conflict_numbering
   \<and> range_valid conflict_numbering 1 1 \<and> range_valid conflict_numbering 1 3
   \<and> 8 \<in> range_cells conflict_mesh_renumbered conflict_numbering 1 1
          \<inter> range_cells conflict_mesh_renumbered conflict_numbering 1 3
   \<and> renumber_test_i_threads conflict_mesh_renumbered conflict_numbering = Some 1"
proof -
  have "i_face_numbering conflict_mesh_renumbered = Some conflict_numbering"
    by (simp add: conflict_mesh_renumbered_def)
  moreover have "renumber_test_i_threads conflict_mesh_renumbered conflict_numbering = Some 1"
    by code_simp
  ultimately show ?thesis
    using conflict_mesh_result conflict_mesh_cell_8 conflict_mesh_valid by blast
qed

subsection \<open>Too few threads or too few faces\<close>

text \<open>
  C10. With a configured number of threads below 2, \<^verbatim>\<open>_renumber_for_threads\<close> returns at
  once and the mesh it leaves is the mesh it was given: connectivity, families, global
  numbering and numberings are untouched.
\<close>

theorem renumber_for_threads_single_thread:
  "cs_renumber_n_threads cfg < 2 \<Longrightarrow> renumber_for_threads cfg mesh = Some (Some mesh)"
  by (simp add: renumber_for_threads_def)

theorem renumber_for_threads_single_thread_witness:
  "cs_renumber_n_threads (multipass_config 1 64) < 2
   \<and> renumber_for_threads (multipass_config 1 64) six_cell_mesh = Some (Some six_cell_mesh)"
  using renumber_for_threads_single_thread [of "multipass_config 1 64" six_cell_mesh]
  by (simp add: multipass_config_def)

text \<open>The boundary faces leave the arrays and the numbering of the interior faces alone.\<close>

lemma update_b_faces_frame:
  "i_face_cells (update_b_faces m p) = i_face_cells m"
  "i_face_vtx_idx (update_b_faces m p) = i_face_vtx_idx m"
  "i_face_vtx_lst (update_b_faces m p) = i_face_vtx_lst m"
  "i_face_family (update_b_faces m p) = i_face_family m"
  "global_i_face_num (update_b_faces m p) = global_i_face_num m"
  "i_face_numbering (update_b_faces m p) = i_face_numbering m"
  by (simp_all add: update_b_faces_def Let_def)

lemma transfer_b_face_numbering_frame:
  "i_face_cells (transfer_b_face_numbering cfg m b) = i_face_cells m"
  "i_face_vtx_idx (transfer_b_face_numbering cfg m b) = i_face_vtx_idx m"
  "i_face_vtx_lst (transfer_b_face_numbering cfg m b) = i_face_vtx_lst m"
  "i_face_family (transfer_b_face_numbering cfg m b) = i_face_family m"
  "global_i_face_num (transfer_b_face_numbering cfg m b) = global_i_face_num m"
  "i_face_numbering (transfer_b_face_numbering cfg m b) = i_face_numbering m"
  by (simp_all add: transfer_b_face_numbering_def Let_def split: prod.splits)

lemma renumber_for_threads_faces_fallback:
  assumes "retval \<noteq> 0"
  shows "\<exists>mesh'. renumber_for_threads_faces cfg mesh (retval, n2o, ng, gi) = Some mesh'
     \<and> i_face_numbering mesh' = i_face_numbering mesh
     \<and> i_face_cells mesh' = i_face_cells mesh
     \<and> i_face_vtx_idx mesh' = i_face_vtx_idx mesh
     \<and> i_face_vtx_lst mesh' = i_face_vtx_lst mesh
     \<and> i_face_family mesh' = i_face_family mesh
     \<and> global_i_face_num mesh' = global_i_face_num mesh"
proof -
  have t: "transfer_i_face_numbering cfg mesh (retval, n2o, ng, gi) = mesh"
    using assms by (simp add: transfer_i_face_numbering_def)
  show ?thesis
    using assms
    by (simp add: renumber_for_threads_faces_def Let_def t apply_renumbering_def
        cs_renumber_update_cells_def cs_renumber_update_faces_def update_b_faces_frame
        transfer_b_face_numbering_frame)
qed

lemma renum_face_multipass_status:
  assumes "renum_face_multipass cfg mesh nt n2o ng gi = Some (Some out)"
  shows "fst out = (if int (n_i_faces mesh) \<le> min_i_subset_size cfg then - 1 else 0)"
  using assms
  by (auto simp: renum_face_multipass_def bind_eq_Some_conv split: if_splits option.splits)

text \<open>
  C3. Whenever \<^verbatim>\<open>_renum_face_multipass\<close> returns, its status is negative if and only if the
  number of interior faces is at most the minimum interior subset size; for such a mesh
  it does return, with status \<open>- 1\<close> and its three outputs as they were passed in. The
  caller, with two threads or more and the multipass algorithm selected, then returns a
  mesh whose interior face numbering is the one it had on entry (none is created) and
  whose interior face arrays are unchanged (the renumbering of the interior faces is
  dropped, not applied).
\<close>

theorem multipass_too_few_faces:
  "(renum_face_multipass cfg mesh nt n2o ng gi = Some (Some out) \<longrightarrow>
      (fst out < 0 \<longleftrightarrow> int (n_i_faces mesh) \<le> min_i_subset_size cfg))
   \<and> (int (n_i_faces mesh) \<le> min_i_subset_size cfg \<longrightarrow>
        renum_face_multipass cfg mesh nt n2o ng gi = Some (Some (- 1, n2o, ng, gi))
        \<and> (2 \<le> cs_renumber_n_threads cfg
             \<and> i_faces_algorithm cfg = CS_RENUMBER_I_FACES_MULTIPASS \<longrightarrow>
            (\<exists>mesh'. renumber_for_threads cfg mesh = Some (Some mesh')
               \<and> i_face_numbering mesh' = i_face_numbering mesh
               \<and> i_face_cells mesh' = i_face_cells mesh
               \<and> i_face_vtx_idx mesh' = i_face_vtx_idx mesh
               \<and> i_face_vtx_lst mesh' = i_face_vtx_lst mesh
               \<and> i_face_family mesh' = i_face_family mesh
               \<and> global_i_face_num mesh' = global_i_face_num mesh)))"
proof (intro conjI impI)
  assume "renum_face_multipass cfg mesh nt n2o ng gi = Some (Some out)"
  from renum_face_multipass_status[OF this]
  show "fst out < 0 \<longleftrightarrow> int (n_i_faces mesh) \<le> min_i_subset_size cfg"
    by (simp split: if_splits)
next
  assume "int (n_i_faces mesh) \<le> min_i_subset_size cfg"
  then show "renum_face_multipass cfg mesh nt n2o ng gi = Some (Some (- 1, n2o, ng, gi))"
    by (simp add: renum_face_multipass_def)
next
  assume small: "int (n_i_faces mesh) \<le> min_i_subset_size cfg"
    and c: "2 \<le> cs_renumber_n_threads cfg
            \<and> i_faces_algorithm cfg = CS_RENUMBER_I_FACES_MULTIPASS"
  have r: "renumber_for_threads cfg mesh
           = Some (renumber_for_threads_faces cfg mesh (- 1, [0..<n_i_faces mesh], 1, None))"
    using small c by (simp add: renumber_for_threads_def renum_face_multipass_def)
  from renumber_for_threads_faces_fallback[of "- 1" cfg mesh "[0..<n_i_faces mesh]" 1 None]
  show "\<exists>mesh'. renumber_for_threads cfg mesh = Some (Some mesh')
               \<and> i_face_numbering mesh' = i_face_numbering mesh
               \<and> i_face_cells mesh' = i_face_cells mesh
               \<and> i_face_vtx_idx mesh' = i_face_vtx_idx mesh
               \<and> i_face_vtx_lst mesh' = i_face_vtx_lst mesh
               \<and> i_face_family mesh' = i_face_family mesh
               \<and> global_i_face_num mesh' = global_i_face_num mesh"
    unfolding r by auto
qed

text \<open>The mesh of 5 interior faces with the default minimum subset size of 64.\<close>

theorem multipass_too_few_faces_witness:
  "renum_face_multipass (multipass_config 4 64) six_cell_mesh 4 [0, 1, 2, 3, 4] 1 None
     = Some (Some (- 1, [0, 1, 2, 3, 4], 1, None))
   \<and> fst (- 1 :: int, [0, 1, 2, 3, 4 :: nat], 1 :: int, None :: int list option) < 0
   \<and> int (n_i_faces six_cell_mesh) \<le> min_i_subset_size (multipass_config 4 64)
   \<and> 2 \<le> cs_renumber_n_threads (multipass_config 4 64)
   \<and> i_faces_algorithm (multipass_config 4 64) = CS_RENUMBER_I_FACES_MULTIPASS
   \<and> (\<exists>mesh'. renumber_for_threads (multipass_config 4 64) six_cell_mesh = Some (Some mesh')
         \<and> i_face_numbering mesh' = i_face_numbering six_cell_mesh
         \<and> i_face_cells mesh' = i_face_cells six_cell_mesh
         \<and> i_face_vtx_idx mesh' = i_face_vtx_idx six_cell_mesh
         \<and> i_face_vtx_lst mesh' = i_face_vtx_lst six_cell_mesh
         \<and> i_face_family mesh' = i_face_family six_cell_mesh
         \<and> global_i_face_num mesh' = global_i_face_num six_cell_mesh)"
proof -
  have h: "int (n_i_faces six_cell_mesh) \<le> min_i_subset_size (multipass_config 4 64)"
    "2 \<le> cs_renumber_n_threads (multipass_config 4 64)"
    "i_faces_algorithm (multipass_config 4 64) = CS_RENUMBER_I_FACES_MULTIPASS"
    by (simp_all add: multipass_config_def six_cell_mesh_def mesh_of_faces_def)
  show ?thesis
    using multipass_too_few_faces
      [of "multipass_config 4 64" six_cell_mesh 4 "[0, 1, 2, 3, 4]" 1 None
          "(- 1, [0, 1, 2, 3, 4], 1, None)"] h
    by simp
qed

subsection \<open>The ranges of boundary faces\<close>

text \<open>
  The order returned by \<^verbatim>\<open>cs_order_lnum_allocated_s\<close> is a permutation of the indices
  that sorts the keys; for the boundary faces, the cells are non-decreasing along the new
  numbering.
\<close>

lemma cs_order_length: "length (cs_order_lnum_allocated_s keys) = length keys"
  by (simp add: cs_order_lnum_allocated_s_def)

lemma cs_order_set: "set (cs_order_lnum_allocated_s keys) = {0..<length keys}"
  by (simp add: cs_order_lnum_allocated_s_def)

lemma cs_order_distinct: "distinct (cs_order_lnum_allocated_s keys)"
  by (simp add: cs_order_lnum_allocated_s_def)

lemma cs_order_nth_less:
  "p < length keys \<Longrightarrow> cs_order_lnum_allocated_s keys ! p < length keys"
  using cs_order_set[of keys] cs_order_length[of keys] nth_mem[of p "cs_order_lnum_allocated_s keys"]
  by auto

lemma cs_order_sorted:
  assumes "p \<le> q" "q < length keys"
  shows "keys ! (cs_order_lnum_allocated_s keys ! p) \<le> keys ! (cs_order_lnum_allocated_s keys ! q)"
proof -
  let ?o = "cs_order_lnum_allocated_s keys"
  have "sorted (map (\<lambda>i. keys ! i) ?o)"
    by (simp add: cs_order_lnum_allocated_s_def)
  then have "map (\<lambda>i. keys ! i) ?o ! p \<le> map (\<lambda>i. keys ! i) ?o ! q"
    using assms by (intro sorted_nth_mono) (simp_all add: cs_order_length)
  then show ?thesis using assms by (simp add: cs_order_length)
qed

lemma b_order_cells_sorted:
  fixes bfc :: "nat list"
  assumes "p \<le> q" "q < n"
    and order_def: "order = cs_order_lnum_allocated_s (map (\<lambda>ii. (bfc ! ii, ii)) [0..<n])"
  shows "bfc ! (order ! p) \<le> bfc ! (order ! q)"
proof -
  let ?keys = "map (\<lambda>ii. (bfc ! ii, ii)) [0..<n]"
  have l: "length ?keys = n" by simp
  have a: "order ! p < n" "order ! q < n"
    using cs_order_nth_less[of p ?keys] cs_order_nth_less[of q ?keys] assms by simp_all
  have "?keys ! (order ! p) \<le> ?keys ! (order ! q)"
    unfolding order_def using assms(1,2) by (intro cs_order_sorted) simp_all
  then show ?thesis using a by (auto simp: less_eq_prod_def)
qed

text \<open>
  Pushing the end of a range forward stops at \<open>n\<close> or on a face of another cell, and
  passes over faces of the cell \<open>c_id\<close> only. One step of the loop on the threads keeps
  the invariant \<^const>\<open>b_inv\<close>, and the target subset size times the number of threads
  reaches the number of faces, so that the last range ends at \<open>n\<close>.
\<close>

lemma b_push_end_props:
  assumes "0 \<le> e" "e \<le> n"
  shows "e \<le> b_push_end bfc n2o n c e \<and> b_push_end bfc n2o n c e \<le> n
     \<and> (\<forall>p. e \<le> p \<and> p < b_push_end bfc n2o n c e \<longrightarrow> bfc ! (n2o ! nat p) = c)
     \<and> (b_push_end bfc n2o n c e < n \<longrightarrow> bfc ! (n2o ! nat (b_push_end bfc n2o n c e)) \<noteq> c)"
  using assms
proof (induction bfc n2o n c e rule: b_push_end.induct)
  case (1 bfc n2o n c e)
  show ?case
  proof (cases "e < n \<and> bfc ! (n2o ! nat e) = c")
    case True
    then have eq: "b_push_end bfc n2o n c e = b_push_end bfc n2o n c (e + 1)"
      by (subst b_push_end.simps) auto
    have IH: "e + 1 \<le> b_push_end bfc n2o n c (e + 1) \<and> b_push_end bfc n2o n c (e + 1) \<le> n
     \<and> (\<forall>p. e + 1 \<le> p \<and> p < b_push_end bfc n2o n c (e + 1) \<longrightarrow> bfc ! (n2o ! nat p) = c)
     \<and> (b_push_end bfc n2o n c (e + 1) < n \<longrightarrow> bfc ! (n2o ! nat (b_push_end bfc n2o n c (e + 1))) \<noteq> c)"
      using 1 True by simp
    have "\<forall>p. e \<le> p \<and> p < b_push_end bfc n2o n c (e + 1) \<longrightarrow> bfc ! (n2o ! nat p) = c"
    proof (intro allI impI)
      fix p assume p: "e \<le> p \<and> p < b_push_end bfc n2o n c (e + 1)"
      show "bfc ! (n2o ! nat p) = c"
      proof (cases "p = e")
        case True with \<open>e < n \<and> bfc ! (n2o ! nat e) = c\<close> show ?thesis by simp
      next
        case False with p IH show ?thesis by simp
      qed
    qed
    with IH show ?thesis unfolding eq by simp
  next
    case False
    then have eq: "b_push_end bfc n2o n c e = e"
      by (subst b_push_end.simps) auto
    show ?thesis unfolding eq using False 1(3) by auto
  qed
qed

lemma b_thread_range_end:
  assumes "0 \<le> st" "st \<le> n"
    and e_def: "e = fst (b_thread_range bfc n2o n ss k (st, gi))"
  shows "st \<le> e \<and> e \<le> n \<and> min ((int k + 1) * ss) n \<le> e
     \<and> (0 < e \<and> e < n \<longrightarrow> bfc ! (n2o ! nat (e - 1)) \<noteq> bfc ! (n2o ! nat e))"
proof -
  define e1 where "e1 = (if (int k + 1) * ss < st then st else (int k + 1) * ss)"
  have e1: "st \<le> e1" "(int k + 1) * ss \<le> e1" by (auto simp: e1_def)
  have E: "e = (if e1 > n then n
                else if 0 < e1 \<and> e1 < n
                then b_push_end bfc n2o n (bfc ! (n2o ! nat (e1 - 1))) e1 else e1)"
    by (simp add: e_def b_thread_range_def Let_def e1_def)
  show ?thesis
  proof (cases "e1 > n")
    case True
    then have "e = n" by (simp add: E)
    then show ?thesis using assms(2) by simp
  next
    case False
    show ?thesis
    proof (cases "0 < e1 \<and> e1 < n")
      case True
      let ?c = "bfc ! (n2o ! nat (e1 - 1))"
      have ee: "e = b_push_end bfc n2o n ?c e1"
        using True False by (simp add: E)
      from b_push_end_props[of e1 n bfc n2o ?c] True
      have P: "e1 \<le> e" "e \<le> n"
        "\<forall>p. e1 \<le> p \<and> p < e \<longrightarrow> bfc ! (n2o ! nat p) = ?c"
        "e < n \<longrightarrow> bfc ! (n2o ! nat e) \<noteq> ?c"
        unfolding ee by auto
      have "bfc ! (n2o ! nat (e - 1)) = ?c"
      proof (cases "e = e1")
        case True then show ?thesis by simp
      next
        case False
        with P(1) have "e1 \<le> e - 1 \<and> e - 1 < e" by simp
        with P(3) show ?thesis by blast
      qed
      with P e1 show ?thesis by auto
    next
      case F2: False
      then have "e = e1" using False by (auto simp: E)
      with F2 False e1 assms show ?thesis by auto
    qed
  qed
qed

lemma b_inv_step:
  assumes inv: "b_inv bfc n2o n ss T k s" and k: "k < T"
  shows "b_inv bfc n2o n ss T (Suc k) (b_thread_range bfc n2o n ss k s)"
proof -
  obtain st gi where s: "s = (st, gi)" by (cases s)
  define e where "e = fst (b_thread_range bfc n2o n ss k (st, gi))"
  define gi' where "gi' = gi[k * 2 := st, k * 2 + 1 := e]"
  have r: "b_thread_range bfc n2o n ss k s = (e, gi')"
    by (simp add: s e_def gi'_def b_thread_range_def Let_def)
  from inv have len: "length gi = 2 * T" and st: "0 \<le> st" "st \<le> n"
    and k0: "k = 0 \<longrightarrow> st = 0"
    and kp: "0 < k \<longrightarrow> gi ! 0 = 0 \<and> gi ! ((k - 1) * 2 + 1) = st"
    and old: "\<forall>t<k. 0 \<le> gi ! (t * 2) \<and> gi ! (t * 2) \<le> gi ! (t * 2 + 1)
              \<and> gi ! (t * 2 + 1) \<le> n
              \<and> (0 < gi ! (t * 2 + 1) \<and> gi ! (t * 2 + 1) < n \<longrightarrow>
                   bfc ! (n2o ! nat (gi ! (t * 2 + 1) - 1))
                     \<noteq> bfc ! (n2o ! nat (gi ! (t * 2 + 1))))"
    and chain: "\<forall>t. t + 1 < k \<longrightarrow> gi ! (t * 2 + 1) = gi ! ((t + 1) * 2)"
    by (simp_all add: b_inv_def s)
  from b_thread_range_end[OF st e_def]
  have e: "st \<le> e" "e \<le> n" "min ((int k + 1) * ss) n \<le> e"
    "0 < e \<and> e < n \<longrightarrow> bfc ! (n2o ! nat (e - 1)) \<noteq> bfc ! (n2o ! nat e)"
    by auto
  have keep: "gi' ! i = gi ! i" if "i < k * 2" for i
    using that by (simp add: gi'_def)
  have new: "gi' ! (k * 2) = st" "gi' ! (k * 2 + 1) = e"
    using k len by (simp_all add: gi'_def)
  have a: "length gi' = 2 * T" by (simp add: gi'_def len)
  have b: "gi' ! 0 = 0"
  proof (cases "k = 0")
    case True with new k0 show ?thesis by simp
  next
    case False with keep[of 0] kp show ?thesis by simp
  qed
  have c: "0 \<le> gi' ! (t * 2) \<and> gi' ! (t * 2) \<le> gi' ! (t * 2 + 1)
              \<and> gi' ! (t * 2 + 1) \<le> n
              \<and> (0 < gi' ! (t * 2 + 1) \<and> gi' ! (t * 2 + 1) < n \<longrightarrow>
                   bfc ! (n2o ! nat (gi' ! (t * 2 + 1) - 1))
                     \<noteq> bfc ! (n2o ! nat (gi' ! (t * 2 + 1))))" if "t < Suc k" for t
  proof (cases "t = k")
    case True
    then show ?thesis using new e st by simp
  next
    case False
    with that have t: "t < k" by simp
    then have "gi' ! (t * 2) = gi ! (t * 2)" "gi' ! (t * 2 + 1) = gi ! (t * 2 + 1)"
      by (simp_all add: keep)
    with old t show ?thesis by simp
  qed
  have d: "gi' ! (t * 2 + 1) = gi' ! ((t + 1) * 2)" if "t + 1 < Suc k" for t
  proof (cases "t + 1 = k")
    case True
    then have k': "k = Suc t" by simp
    have "gi' ! (t * 2 + 1) = gi ! (t * 2 + 1)"
      using keep[of "t * 2 + 1"] by (simp add: k')
    also have "\<dots> = st" using kp by (simp add: k')
    also have "\<dots> = gi' ! ((t + 1) * 2)" using new(1) by (simp add: k')
    finally show ?thesis .
  next
    case False
    with that have t: "t + 1 < k" by simp
    then have "gi' ! (t * 2 + 1) = gi ! (t * 2 + 1)" "gi' ! ((t + 1) * 2) = gi ! ((t + 1) * 2)"
      by (simp_all add: keep)
    with chain t show ?thesis by simp
  qed
  have m: "min (int (Suc k) * ss) n \<le> e"
    using e(3) by (simp add: algebra_simps)
  show ?thesis
    unfolding r b_inv_def using a b c d m e st new by simp
qed

lemma b_inv_fold:
  assumes "k \<le> T" "0 \<le> n"
  shows "b_inv bfc n2o n ss T k
           (fold (b_thread_range bfc n2o n ss) [0..<k] (0, replicate (T * 2) 0))"
  using assms
proof (induction k)
  case 0
  then show ?case by (simp add: b_inv_def)
next
  case (Suc k)
  then show ?case using b_inv_step[of bfc n2o n ss T k] by simp
qed

lemma b_subset_size_covers:
  assumes "0 < T"
  shows "int n \<le> int T * b_subset_size n T m"
proof -
  let ?c = "if n mod T > 0 then n div T + 1 else n div T"
  have m: "n mod T < T" using assms by simp
  have d: "T * (n div T) + n mod T = n" by simp
  have "n \<le> T * ?c"
  proof (cases "n mod T > 0")
    case True
    have "n \<le> T * (n div T) + T" using m d by linarith
    then show ?thesis using True by simp
  next
    case False
    then have "n = T * (n div T)" using d by simp
    then show ?thesis using False by simp
  qed
  then have "int n \<le> int T * int ?c" by (metis of_nat_le_iff of_nat_mult)
  also have "\<dots> \<le> int T * b_subset_size n T m"
    unfolding b_subset_size_def by (intro mult_left_mono) simp_all
  finally show ?thesis .
qed

lemma b_subset_size_nonneg: "0 \<le> b_subset_size n T m"
  by (simp add: b_subset_size_def max_def)

lemma b_result:
  "renum_b_faces_no_share_cell_across_thread mesh T m new_to_old_b =
     (if n_b_faces mesh < 1 then - 1 else 0, b_new_to_old mesh new_to_old_b, 1,
      snd (fold (b_thread_range (b_face_cells mesh) (b_new_to_old mesh new_to_old_b)
                   (int (n_b_faces mesh)) (b_subset_size (n_b_faces mesh) T m))
             [0..<T] (0, replicate (T * 2) 0)))"
  by (simp add: renum_b_faces_no_share_cell_across_thread_def Let_def b_new_to_old_def)

lemma b_new_to_old_nth:
  "p < n_b_faces mesh \<Longrightarrow>
   b_new_to_old mesh new_to_old_b ! p =
     cs_order_lnum_allocated_s
       (map (\<lambda>ii. (b_face_cells mesh ! ii, ii)) [0..<n_b_faces mesh]) ! p"
  by (simp add: b_new_to_old_def nth_append)

lemma b_new_to_old_sorted:
  assumes "p \<le> q" "q < n_b_faces mesh"
  shows "b_face_cells mesh ! (b_new_to_old mesh new_to_old_b ! p)
         \<le> b_face_cells mesh ! (b_new_to_old mesh new_to_old_b ! q)"
  using b_order_cells_sorted[OF assms refl, of "b_face_cells mesh"] assms
  by (simp add: b_new_to_old_nth)

lemma b_final_inv:
  assumes T: "0 < T"
    and r_def: "r = fold (b_thread_range (b_face_cells mesh) (b_new_to_old mesh new_to_old_b)
                   (int (n_b_faces mesh)) (b_subset_size (n_b_faces mesh) T m))
             [0..<T] (0, replicate (T * 2) 0)"
  shows "b_inv (b_face_cells mesh) (b_new_to_old mesh new_to_old_b) (int (n_b_faces mesh))
           (b_subset_size (n_b_faces mesh) T m) T T r \<and> fst r = int (n_b_faces mesh)"
proof -
  have inv: "b_inv (b_face_cells mesh) (b_new_to_old mesh new_to_old_b) (int (n_b_faces mesh))
           (b_subset_size (n_b_faces mesh) T m) T T r"
    unfolding r_def by (rule b_inv_fold) simp_all
  then have "min (int T * b_subset_size (n_b_faces mesh) T m) (int (n_b_faces mesh)) \<le> fst r"
    "fst r \<le> int (n_b_faces mesh)"
    by (simp_all add: b_inv_def)
  with b_subset_size_covers[OF T, of "n_b_faces mesh" m] have "fst r = int (n_b_faces mesh)"
    by simp
  with inv show ?thesis by simp
qed

text \<open>
  From the invariant after the last thread: the ranges cover \<open>[0, n)\<close>, and since the
  cells are sorted and every end lies on a change of cell, no cell is split.
\<close>

lemma ranges_chain_mono:
  fixes gi :: "int list"
  assumes le: "\<forall>t<T. gi ! (t * 2) \<le> gi ! (t * 2 + 1)"
    and chain: "\<forall>t. t + 1 < T \<longrightarrow> gi ! (t * 2 + 1) = gi ! ((t + 1) * 2)"
    and "t < u" "u < T"
  shows "gi ! (t * 2 + 1) \<le> gi ! (u * 2)"
  using assms(3,4)
proof (induction u)
  case 0
  then show ?case by simp
next
  case (Suc u)
  show ?case
  proof (cases "t = u")
    case True
    with chain Suc.prems show ?thesis by simp
  next
    case False
    with Suc have "gi ! (t * 2 + 1) \<le> gi ! (u * 2)" by simp
    also have "\<dots> \<le> gi ! (u * 2 + 1)" using le Suc.prems by simp
    also have "\<dots> = gi ! (Suc u * 2)" using chain Suc.prems by simp
    finally show ?thesis .
  qed
qed

lemma ranges_cover_unique:
  fixes gi :: "int list"
  assumes le: "\<forall>t<T. gi ! (t * 2) \<le> gi ! (t * 2 + 1)"
    and chain: "\<forall>t. t + 1 < T \<longrightarrow> gi ! (t * 2 + 1) = gi ! ((t + 1) * 2)"
    and first: "gi ! 0 = 0" and final: "gi ! ((T - 1) * 2 + 1) = int n" and T: "0 < T"
    and p: "p < n"
  shows "\<exists>!t. t < T \<and> gi ! (t * 2) \<le> int p \<and> int p < gi ! (t * 2 + 1)"
proof -
  let ?P = "\<lambda>t. t < T \<and> int p < gi ! (t * 2 + 1)"
  have ex: "?P (T - 1)" using final T p by simp
  define t where "t = (LEAST t. ?P t)"
  have t: "?P t" unfolding t_def using ex by (rule LeastI)
  have least: "\<And>u. ?P u \<Longrightarrow> t \<le> u" unfolding t_def by (rule Least_le)
  have lower: "gi ! (t * 2) \<le> int p"
  proof (cases t)
    case 0
    then show ?thesis using first by simp
  next
    case (Suc u)
    then have "\<not> ?P u" using least[of u] by auto
    then have "gi ! (u * 2 + 1) \<le> int p" using t Suc by simp
    moreover have "gi ! (u * 2 + 1) = gi ! (t * 2)" using chain t Suc by simp
    ultimately show ?thesis by simp
  qed
  show ?thesis
  proof (rule ex1I[of _ t])
    show "t < T \<and> gi ! (t * 2) \<le> int p \<and> int p < gi ! (t * 2 + 1)"
      using t lower by simp
  next
    fix u assume u: "u < T \<and> gi ! (u * 2) \<le> int p \<and> int p < gi ! (u * 2 + 1)"
    show "u = t"
    proof (rule ccontr)
      assume "u \<noteq> t"
      then consider "u < t" | "t < u" by linarith
      then show False
      proof cases
        case 1
        from ranges_chain_mono[OF le chain 1] t have "gi ! (u * 2 + 1) \<le> gi ! (t * 2)" by simp
        with u lower show False by simp
      next
        case 2
        from ranges_chain_mono[OF le chain 2] u have "gi ! (t * 2 + 1) \<le> gi ! (u * 2)" by simp
        with u t show False by simp
      qed
    qed
  qed
qed

lemma b_inv_cover:
  assumes inv: "b_inv bfc n2o (int n) ss T T r" and fin: "fst r = int n" and T: "0 < T"
  shows "b_ranges_cover (snd r) T n"
proof -
  have le: "\<forall>t<T. snd r ! (t * 2) \<le> snd r ! (t * 2 + 1)"
    using inv by (simp add: b_inv_def)
  have chain: "\<forall>t. t + 1 < T \<longrightarrow> snd r ! (t * 2 + 1) = snd r ! ((t + 1) * 2)"
    using inv by (simp add: b_inv_def)
  have first: "snd r ! 0 = 0" using inv T by (simp add: b_inv_def)
  have final: "snd r ! ((T - 1) * 2 + 1) = int n" using inv T fin by (simp add: b_inv_def)
  have len: "length (snd r) = T * 2" using inv by (simp add: b_inv_def)
  have "\<forall>p<n. \<exists>!t. t < T \<and> snd r ! (t * 2) \<le> int p \<and> int p < snd r ! (t * 2 + 1)"
    using ranges_cover_unique[OF le chain first final T] by blast
  with le chain first final len show ?thesis
    unfolding b_ranges_cover_def by blast
qed

lemma b_inv_not_split_less:
  assumes inv: "b_inv bfc n2o (int n) ss T T r"
    and sorted: "\<And>p q. p \<le> q \<Longrightarrow> q < n \<Longrightarrow> bfc ! (n2o ! p) \<le> bfc ! (n2o ! q)"
    and t: "t1 < t2" "t2 < T"
    and p: "snd r ! (t1 * 2) \<le> int p" "int p < snd r ! (t1 * 2 + 1)"
    and q: "snd r ! (t2 * 2) \<le> int q" "int q < snd r ! (t2 * 2 + 1)"
  shows "bfc ! (n2o ! p) < bfc ! (n2o ! q)"
proof -
  define E where "E = snd r ! (t1 * 2 + 1)"
  have le: "\<forall>t<T. snd r ! (t * 2) \<le> snd r ! (t * 2 + 1)"
    using inv by (simp add: b_inv_def)
  have chain: "\<forall>t. t + 1 < T \<longrightarrow> snd r ! (t * 2 + 1) = snd r ! ((t + 1) * 2)"
    using inv by (simp add: b_inv_def)
  have t1: "t1 < T" using t by simp
  have "E \<le> snd r ! (t2 * 2)"
    unfolding E_def by (rule ranges_chain_mono[OF le chain t])
  then have Eq: "E \<le> int q" using q by simp
  have qn: "int q < int n" using inv t(2) q(2) by (auto simp: b_inv_def)
  have pE: "int p < E" using p by (simp add: E_def)
  then have E0: "0 < E" by linarith
  have En: "E < int n" using Eq qn by linarith
  have change: "bfc ! (n2o ! nat (E - 1)) \<noteq> bfc ! (n2o ! nat E)"
    using inv t1 E0 En unfolding b_inv_def E_def by blast
  have 1: "bfc ! (n2o ! p) \<le> bfc ! (n2o ! nat (E - 1))"
    using pE En by (intro sorted) linarith+
  have 2: "bfc ! (n2o ! nat (E - 1)) \<le> bfc ! (n2o ! nat E)"
    using E0 En by (intro sorted) linarith+
  have 3: "bfc ! (n2o ! nat E) \<le> bfc ! (n2o ! q)"
    using Eq qn E0 by (intro sorted) linarith+
  from 1 2 3 change show ?thesis by linarith
qed

lemma b_inv_not_split:
  assumes inv: "b_inv bfc n2o (int n) ss T T r"
    and sorted: "\<And>p q. p \<le> q \<Longrightarrow> q < n \<Longrightarrow> bfc ! (n2o ! p) \<le> bfc ! (n2o ! q)"
  shows "b_cells_not_split bfc n2o (snd r) T"
  unfolding b_cells_not_split_def
proof (intro allI impI)
  fix t1 t2 p q
  assume t1: "t1 < T" and t2: "t2 < T"
    and h: "snd r ! (t1 * 2) \<le> int p \<and> int p < snd r ! (t1 * 2 + 1)
            \<and> snd r ! (t2 * 2) \<le> int q \<and> int q < snd r ! (t2 * 2 + 1)
            \<and> bfc ! (n2o ! p) = bfc ! (n2o ! q)"
  show "t1 = t2"
  proof (rule ccontr)
    assume "t1 \<noteq> t2"
    then consider "t1 < t2" | "t2 < t1" by linarith
    then show False
    proof cases
      case 1
      from b_inv_not_split_less[OF inv sorted 1 t2, of p q] h show False by simp
    next
      case 2
      from b_inv_not_split_less[OF inv sorted 2 t1, of q p] h show False by simp
    qed
  qed
qed

text \<open>
  The end of the first range is not written again by the later threads. With 10 faces,
  3 threads and a minimum subset size of at most 4 the target size is 4.
\<close>

lemma b_thread_range_snd_nth:
  "j \<noteq> t * 2 \<Longrightarrow> j \<noteq> t * 2 + 1 \<Longrightarrow>
   snd (b_thread_range bfc n2o n ss t s) ! j = snd s ! j"
  by (simp add: b_thread_range_def Let_def)

lemma b_fold_keeps:
  "\<forall>t\<in>set ts. j < t * 2 \<Longrightarrow>
   snd (fold (b_thread_range bfc n2o n ss) ts s) ! j = snd s ! j"
  by (induction ts arbitrary: s) (simp_all add: b_thread_range_snd_nth)

lemma b_first_end:
  assumes "0 < T"
  shows "snd (fold (b_thread_range bfc n2o n ss) [0..<T] (0, replicate (T * 2) 0)) ! 1
         = fst (b_thread_range bfc n2o n ss 0 (0, replicate (T * 2) 0))"
proof -
  have "[0..<T] = 0 # [1..<T]" using assms by (simp add: upt_conv_Cons)
  then have "snd (fold (b_thread_range bfc n2o n ss) [0..<T] (0, replicate (T * 2) 0)) ! 1
     = snd (fold (b_thread_range bfc n2o n ss) [1..<T]
              (b_thread_range bfc n2o n ss 0 (0, replicate (T * 2) 0))) ! 1"
    by simp
  also have "\<dots> = snd (b_thread_range bfc n2o n ss 0 (0, replicate (T * 2) 0)) ! 1"
    by (rule b_fold_keeps) auto
  also have "\<dots> = fst (b_thread_range bfc n2o n ss 0 (0, replicate (T * 2) 0))"
    using assms by (simp add: b_thread_range_def Let_def)
  finally show ?thesis .
qed

lemma b_scenario_end:
  assumes "m \<le> 4" "bfc ! (n2o ! 3) = bfc ! (n2o ! 4)" "bfc ! (n2o ! 4) \<noteq> bfc ! (n2o ! 5)"
  shows "fst (b_thread_range bfc n2o 10 (b_subset_size 10 3 m) 0 (0, gi)) = 5"
proof -
  have ss: "b_subset_size 10 3 m = 4" using assms(1) by (simp add: b_subset_size_def)
  have "b_push_end bfc n2o 10 (bfc ! (n2o ! 3)) 4 = 5"
    using assms(2,3) by (simp add: b_push_end.simps[of _ _ _ _ 4] b_push_end.simps[of _ _ _ _ 5])
  then show ?thesis
    by (simp add: ss b_thread_range_def Let_def)
qed

lemma ten_b_faces_result:
  "renum_b_faces_no_share_cell_across_thread ten_b_faces_mesh 3 4 (replicate 10 0)
   = (0, [1, 2, 3, 0, 4, 5, 6, 7, 8, 9], 1, [0, 5, 5, 8, 8, 10])"
  by code_simp

lemma three_b_faces_result:
  "renum_b_faces_no_share_cell_across_thread three_b_faces_one_cell_mesh 3 4 (replicate 10 0)
   = (0, [1, 2, 4, 0, 3, 5, 6, 7, 8, 9], 1, [0, 6, 6, 8, 8, 10])"
  by code_simp

text \<open>
  C5. The claim: the boundary partitioner produces one group of contiguous ranges, in
  order, pairwise disjoint, covering \<open>[0, n_b_faces)\<close>, and no two boundary faces of the
  same cell fall in the ranges of different threads; for 10 boundary faces, 3 threads and
  a minimum subset size of at most 4, when the 4th and 5th faces in the order by cell
  share a cell, the range of thread 0 ends at 5.

  Proved for at least one thread (the number of threads divides the number of faces in
  the code): one group, the ranges cover \<open>[0, n_b_faces)\<close> with every position in exactly
  one range, no cell is split, and in the scenario the range of thread 0 ends at 5
  provided that the 6th face in the order lies in another cell than the 5th.
\<close>

theorem b_partition_ranges:
  assumes T: "0 < T"
    and res: "renum_b_faces_no_share_cell_across_thread mesh T m new_to_old_b = (rv, n2o, ng, gi)"
  shows "ng = 1 \<and> b_ranges_cover gi T (n_b_faces mesh)
         \<and> b_cells_not_split (b_face_cells mesh) n2o gi T
         \<and> (n_b_faces mesh = 10 \<and> T = 3 \<and> m \<le> 4
              \<and> b_face_cells mesh ! (n2o ! 3) = b_face_cells mesh ! (n2o ! 4)
              \<and> b_face_cells mesh ! (n2o ! 4) \<noteq> b_face_cells mesh ! (n2o ! 5)
            \<longrightarrow> gi ! 1 = 5)"
proof -
  define r where "r = fold (b_thread_range (b_face_cells mesh) (b_new_to_old mesh new_to_old_b)
                   (int (n_b_faces mesh)) (b_subset_size (n_b_faces mesh) T m))
             [0..<T] (0, replicate (T * 2) 0)"
  from res have ng: "ng = 1" and n2o: "n2o = b_new_to_old mesh new_to_old_b" and gi: "gi = snd r"
    by (auto simp: b_result r_def)
  from b_final_inv[OF T r_def]
  have inv: "b_inv (b_face_cells mesh) n2o (int (n_b_faces mesh))
               (b_subset_size (n_b_faces mesh) T m) T T r"
    and fin: "fst r = int (n_b_faces mesh)"
    by (simp_all add: n2o)
  have cover: "b_ranges_cover gi T (n_b_faces mesh)"
    unfolding gi by (rule b_inv_cover[OF inv fin T])
  have split: "b_cells_not_split (b_face_cells mesh) n2o gi T"
    unfolding gi
    by (rule b_inv_not_split[OF inv]) (simp add: n2o b_new_to_old_sorted)
  have scen: "gi ! 1 = 5"
    if "n_b_faces mesh = 10" "T = 3" "m \<le> 4"
      "b_face_cells mesh ! (n2o ! 3) = b_face_cells mesh ! (n2o ! 4)"
      "b_face_cells mesh ! (n2o ! 4) \<noteq> b_face_cells mesh ! (n2o ! 5)"
  proof -
    have "gi ! 1 = fst (b_thread_range (b_face_cells mesh) n2o (int (n_b_faces mesh))
                          (b_subset_size (n_b_faces mesh) T m) 0 (0, replicate (T * 2) 0))"
      unfolding gi r_def n2o by (rule b_first_end[OF T])
    also have "\<dots> = 5"
      using b_scenario_end[OF that(3,4,5)] that(1,2) by simp
    finally show ?thesis .
  qed
  from ng cover split scen show ?thesis by blast
qed

theorem b_partition_ranges_witness:
  "renum_b_faces_no_share_cell_across_thread ten_b_faces_mesh 3 4 (replicate 10 0)
     = (0, [1, 2, 3, 0, 4, 5, 6, 7, 8, 9], 1, [0, 5, 5, 8, 8, 10])
   \<and> b_ranges_cover [0, 5, 5, 8, 8, 10] 3 10
   \<and> b_cells_not_split (b_face_cells ten_b_faces_mesh) [1, 2, 3, 0, 4, 5, 6, 7, 8, 9]
       [0, 5, 5, 8, 8, 10] 3
   \<and> [0, 5, 5, 8, 8, 10] ! 1 = (5 :: int)"
proof -
  have n: "n_b_faces ten_b_faces_mesh = 10"
    by (simp add: ten_b_faces_mesh_def mesh_of_faces_def)
  from b_partition_ranges[OF _ ten_b_faces_result] n
  show ?thesis by (simp add: ten_b_faces_result)
qed

text \<open>
  Without that proviso the end is pushed further: when the faces at the positions 3, 4
  and 5 of the order all lie in cell 3, the range of thread 0 ends at 6.
\<close>

theorem b_partition_three_faces_one_cell:
  "n_b_faces three_b_faces_one_cell_mesh = 10
   \<and> b_face_cells three_b_faces_one_cell_mesh
        ! (fst (snd (renum_b_faces_no_share_cell_across_thread
                       three_b_faces_one_cell_mesh 3 4 (replicate 10 0))) ! 3)
     = b_face_cells three_b_faces_one_cell_mesh
        ! (fst (snd (renum_b_faces_no_share_cell_across_thread
                       three_b_faces_one_cell_mesh 3 4 (replicate 10 0))) ! 4)
   \<and> snd (snd (snd (renum_b_faces_no_share_cell_across_thread
                       three_b_faces_one_cell_mesh 3 4 (replicate 10 0)))) ! 1 = 6"
  unfolding three_b_faces_result
  by (simp add: three_b_faces_one_cell_mesh_def mesh_of_faces_def)

subsection \<open>Groups of independent faces\<close>

text \<open>
  The graph of \<^verbatim>\<open>_csr_graph_create_cell_face\<close>: the counters of the first loop hold the
  degrees of the cells, the row index their partial sums, and after the third loop every
  face stands in the rows of its two cells.
\<close>

lemma cells_ok_iff:
  "cells_ok n m fc \<longleftrightarrow> (\<forall>f<m. fst (fc ! f) < n \<and> snd (fc ! f) < n)"
  by (auto simp: cells_ok_def list_all_iff)

lemma csr_deg_mono: "k \<le> k' \<Longrightarrow> csr_deg fc k c \<le> csr_deg fc k' c"
  by (induction k' ) (auto simp: le_Suc_eq)

lemma csr_count_step:
  assumes "length cc = n" "fst (fc ! k) < n" "snd (fc ! k) < n"
  shows "length (csr_count fc k cc) = n
       \<and> (\<forall>c<n. csr_count fc k cc ! c
             = cc ! c + (if fst (fc ! k) = c then 1 else 0) + (if snd (fc ! k) = c then 1 else 0))"
  using assms by (auto simp: csr_count_def Let_def nth_list_update)

lemma csr_count_fold:
  assumes "cells_ok n m fc" "k \<le> m"
  shows "length (fold (csr_count fc) [0..<k] (replicate n 0)) = n
       \<and> (\<forall>c<n. fold (csr_count fc) [0..<k] (replicate n 0) ! c = csr_deg fc k c)"
  using assms(2)
proof (induction k)
  case 0
  then show ?case by simp
next
  case (Suc k)
  define cc where "cc = fold (csr_count fc) [0..<k] (replicate n 0)"
  from Suc have IH: "length cc = n" "\<forall>c<n. cc ! c = csr_deg fc k c"
    by (simp_all add: cc_def)
  have b: "fst (fc ! k) < n" "snd (fc ! k) < n"
    using assms(1) Suc.prems by (simp_all add: cells_ok_iff)
  have step: "fold (csr_count fc) [0..<Suc k] (replicate n 0) = csr_count fc k cc"
    by (simp add: cc_def)
  show ?case unfolding step
    using csr_count_step[OF IH(1) b] IH(2) by simp
qed

lemma csr_index_fold:
  assumes "j \<le> n" "\<forall>c<n. ccount ! c = csr_deg fc m c"
  shows "length (fst (fold (csr_index ccount) [0..<j] (replicate (n + 1) 0, 0))) = n + 1
       \<and> (\<forall>c\<le>j. fst (fold (csr_index ccount) [0..<j] (replicate (n + 1) 0, 0)) ! c
                   = csr_off fc m c)"
  using assms(1)
proof (induction j)
  case 0
  then show ?case by (simp add: csr_off_def)
next
  case (Suc j)
  define r where "r = fold (csr_index ccount) [0..<j] (replicate (n + 1) 0, 0)"
  from Suc have IH: "length (fst r) = n + 1" "\<forall>c\<le>j. fst r ! c = csr_off fc m c"
    by (simp_all add: r_def)
  have step: "fold (csr_index ccount) [0..<Suc j] (replicate (n + 1) 0, 0) = csr_index ccount j r"
    by (simp add: r_def)
  have cj: "ccount ! j = csr_deg fc m j" using assms(2) Suc.prems by simp
  have off: "csr_off fc m (Suc j) = csr_off fc m j + csr_deg fc m j"
    by (simp add: csr_off_def)
  show ?case unfolding step
    using IH Suc.prems cj off
    by (auto simp: csr_index_def nth_list_update le_Suc_eq)
qed

lemma csr_off_mono: "c \<le> c' \<Longrightarrow> csr_off fc m c \<le> csr_off fc m c'"
  unfolding csr_off_def by (rule sum_mono2) auto

lemma csr_off_Suc: "csr_off fc m (Suc c) = csr_off fc m c + csr_deg fc m c"
  by (simp add: csr_off_def)

lemma csr_pos_less:
  assumes "c < c'" "j < csr_deg fc m c"
  shows "csr_off fc m c + j < csr_off fc m c' + j'"
proof -
  have "csr_off fc m c + j < csr_off fc m (Suc c)" using assms(2) by (simp add: csr_off_Suc)
  also have "\<dots> \<le> csr_off fc m c'" using assms(1) by (intro csr_off_mono) simp
  finally show ?thesis by simp
qed

lemma csr_pos_inj:
  assumes "j < csr_deg fc m c" "j' < csr_deg fc m c'"
    and "csr_off fc m c + j = csr_off fc m c' + j'"
  shows "c = c' \<and> j = j'"
proof -
  consider "c < c'" | "c' < c" | "c = c'" by linarith
  then show ?thesis
  proof cases
    case 1
    from csr_pos_less[OF 1 assms(1), of j'] assms(3) show ?thesis by simp
  next
    case 2
    from csr_pos_less[OF 2 assms(2), of j] assms(3) show ?thesis by simp
  next
    case 3
    with assms(3) show ?thesis by simp
  qed
qed

lemma csr_pos_bound:
  assumes "c < n" "j < csr_deg fc m c"
  shows "csr_off fc m c + j < csr_off fc m n"
proof -
  have "csr_off fc m c + j < csr_off fc m (Suc c)" using assms(2) by (simp add: csr_off_Suc)
  also have "\<dots> \<le> csr_off fc m n" using assms(1) by (intro csr_off_mono) simp
  finally show ?thesis .
qed

lemma csr_scatter_step:
  assumes inv: "csr_scatter_inv fc n m k s" and k: "k < m"
    and b: "fst (fc ! k) < n" "snd (fc ! k) < n"
    and ri: "\<forall>c\<le>n. ri ! c = csr_off fc m c"
  shows "csr_scatter_inv fc n m (Suc k) (csr_scatter fc ri k s)"
proof -
  define ii where "ii = fst (fc ! k)"
  define jj where "jj = snd (fc ! k)"
  define col where "col = fst s"
  define cnt where "cnt = snd s"
  define d where "d = (if ii = jj then 1 else 0 :: nat)"
  define P1 where "P1 = csr_off fc m ii + csr_deg fc k ii"
  define P2 where "P2 = csr_off fc m jj + (csr_deg fc k jj + d)"
  have len: "length col = csr_off fc m n" "length cnt = n"
    and cnt: "\<And>c. c < n \<Longrightarrow> cnt ! c = csr_deg fc k c"
    and old: "\<And>f c. f < k \<Longrightarrow> fst (fc ! f) = c \<or> snd (fc ! f) = c \<Longrightarrow>
                \<exists>j<csr_deg fc k c. col ! (csr_off fc m c + j) = f"
    using inv by (auto simp: csr_scatter_inv_def col_def cnt_def)
  have iin: "ii < n" and jjn: "jj < n" using b by (simp_all add: ii_def jj_def)
  have degS: "\<And>c. csr_deg fc (Suc k) c
                  = csr_deg fc k c + (if ii = c then 1 else 0) + (if jj = c then 1 else 0)"
    by (simp add: ii_def jj_def)
  have degm: "\<And>c. csr_deg fc (Suc k) c \<le> csr_deg fc m c"
    using k by (intro csr_deg_mono) simp
  have d1: "csr_deg fc k ii < csr_deg fc m ii"
    using degm[of ii] degS[of ii] by (simp del: csr_deg.simps)
  have d2: "csr_deg fc k jj + d < csr_deg fc m jj"
    using degm[of jj] degS[of jj] by (simp add: d_def del: csr_deg.simps)
  have P1b: "P1 < length col" unfolding P1_def len by (rule csr_pos_bound[OF iin d1])
  have P2b: "P2 < length col" unfolding P2_def len by (rule csr_pos_bound[OF jjn d2])
  have P12: "P1 \<noteq> P2"
  proof
    assume "P1 = P2"
    from csr_pos_inj[OF d1 d2 this[unfolded P1_def P2_def]] show False by (auto simp: d_def)
  qed
  have res: "csr_scatter fc ri k s
     = (col[P1 := k, P2 := k], cnt[ii := cnt ! ii + 1, jj := cnt[ii := cnt ! ii + 1] ! jj + 1])"
    using iin jjn ri len cnt[OF iin] cnt[OF jjn]
    by (simp add: csr_scatter_def Let_def ii_def[symmetric] jj_def[symmetric]
        col_def[symmetric] cnt_def[symmetric] P1_def P2_def d_def nth_list_update)
  have c1: "\<forall>c<n. cnt[ii := cnt ! ii + 1, jj := cnt[ii := cnt ! ii + 1] ! jj + 1] ! c
                 = csr_deg fc (Suc k) c"
    using len iin jjn cnt by (auto simp: degS nth_list_update simp del: csr_deg.simps)
  have c2: "\<exists>j<csr_deg fc (Suc k) c. col[P1 := k, P2 := k] ! (csr_off fc m c + j) = f"
    if f: "f < Suc k" and c: "fst (fc ! f) = c \<or> snd (fc ! f) = c" for f c
  proof (cases "f = k")
    case True
    from c True have "c = ii \<or> c = jj" by (auto simp: ii_def jj_def)
    then show ?thesis
    proof
      assume cii: "c = ii"
      have "col[P1 := k, P2 := k] ! P1 = k" using P1b P12 by simp
      moreover have "csr_deg fc k ii < csr_deg fc (Suc k) ii" by (simp add: degS del: csr_deg.simps)
      ultimately show ?thesis unfolding cii True P1_def by blast
    next
      assume cjj: "c = jj"
      have "col[P1 := k, P2 := k] ! P2 = k" using P2b by simp
      moreover have "csr_deg fc k jj + d < csr_deg fc (Suc k) jj"
        by (simp add: degS d_def del: csr_deg.simps)
      ultimately show ?thesis unfolding cjj True P2_def by blast
    qed
  next
    case False
    with f have fk: "f < k" by simp
    from old[OF fk c] obtain j where j: "j < csr_deg fc k c" "col ! (csr_off fc m c + j) = f"
      by blast
    have jm: "j < csr_deg fc m c"
      using j(1) csr_deg_mono[of k m fc c] k by simp
    have n1: "csr_off fc m c + j \<noteq> P1"
    proof
      assume "csr_off fc m c + j = P1"
      from csr_pos_inj[OF jm d1 this[unfolded P1_def]] j(1) show False by simp
    qed
    have n2: "csr_off fc m c + j \<noteq> P2"
    proof
      assume "csr_off fc m c + j = P2"
      from csr_pos_inj[OF jm d2 this[unfolded P2_def]] j(1) show False by simp
    qed
    have "col[P1 := k, P2 := k] ! (csr_off fc m c + j) = f" using n1 n2 j(2) by simp
    moreover have "j < csr_deg fc (Suc k) c" using j(1) by (simp add: degS del: csr_deg.simps)
    ultimately show ?thesis by blast
  qed
  show ?thesis
    unfolding res csr_scatter_inv_def using len c1 c2 by simp
qed

lemma csr_scatter_fold:
  assumes ok: "cells_ok n m fc" and k: "k \<le> m"
    and ri: "\<forall>c\<le>n. ri ! c = csr_off fc m c"
  shows "csr_scatter_inv fc n m k
           (fold (csr_scatter fc ri) [0..<k] (replicate (csr_off fc m n) 0, replicate n 0))"
  using k
proof (induction k)
  case 0
  then show ?case by (simp add: csr_scatter_inv_def)
next
  case (Suc k)
  have b: "fst (fc ! k) < n" "snd (fc ! k) < n"
    using ok Suc.prems by (simp_all add: cells_ok_iff)
  have "csr_scatter_inv fc n m (Suc k)
          (csr_scatter fc ri k
             (fold (csr_scatter fc ri) [0..<k] (replicate (csr_off fc m n) 0, replicate n 0)))"
    using Suc by (intro csr_scatter_step b ri) simp_all
  then show ?case by simp
qed

lemma csr_row_has_face:
  assumes ok: "cells_ok n m fc" and f: "f < m"
    and c: "fst (fc ! f) = c \<or> snd (fc ! f) = c"
  shows "row_has_face (csr_graph_create_cell_face n m fc) c f"
proof -
  define ccount where "ccount = fold (csr_count fc) [0..<m] (replicate n 0)"
  define ix where "ix = fold (csr_index ccount) [0..<n] (replicate (n + 1) 0, 0)"
  define sc where "sc = fold (csr_scatter fc (fst ix)) [0..<m]
                          (replicate (fst ix ! n) 0, replicate n 0)"
  have g: "csr_graph_create_cell_face n m fc
           = \<lparr>n_rows = n, n_cols_max = snd ix, row_index = fst ix, col_id = fst sc\<rparr>"
    by (simp add: csr_graph_create_cell_face_def Let_def ccount_def ix_def sc_def)
  have cc: "\<forall>c<n. ccount ! c = csr_deg fc m c"
    using csr_count_fold[OF ok order_refl] by (simp add: ccount_def)
  have ri: "\<forall>c\<le>n. fst ix ! c = csr_off fc m c"
    using csr_index_fold[OF order_refl cc] by (simp add: ix_def)
  then have total: "fst ix ! n = csr_off fc m n" by simp
  have inv: "csr_scatter_inv fc n m m sc"
    unfolding sc_def total by (rule csr_scatter_fold[OF ok order_refl ri])
  have cn: "c < n" using ok f c by (auto simp: cells_ok_iff)
  from inv f c obtain j where j: "j < csr_deg fc m c" "fst sc ! (csr_off fc m c + j) = f"
    unfolding csr_scatter_inv_def by blast
  have r1: "fst ix ! c = csr_off fc m c" using ri cn by simp
  have r2: "fst ix ! (c + 1) = csr_off fc m c + csr_deg fc m c"
    using ri cn by (simp add: csr_off_Suc)
  have "csr_off fc m c + j \<in> set [fst ix ! c..<fst ix ! (c + 1)]"
    unfolding r1 r2 using j(1) by simp
  with j(2) show ?thesis
    unfolding row_has_face_def g list_ex_iff by auto
qed

text \<open>
  A face that passes the test against the current group shares no cell with a face of the
  group; adding it keeps the invariant.
\<close>

lemma face_ok_sound:
  assumes ok: "cells_ok n m fc" and f: "f < m"
    and gfi: "\<forall>i<length G. gfi ! i = int (G ! i)"
    and fok: "face_ok (csr_graph_create_cell_face n m fc) fc gfi (length G) f"
    and f': "f' \<in> set G"
  shows "face_cells_of fc f' \<inter> face_cells_of fc f = {}"
proof (rule ccontr)
  assume "face_cells_of fc f' \<inter> face_cells_of fc f \<noteq> {}"
  then obtain c where c: "c \<in> face_cells_of fc f'" "c \<in> face_cells_of fc f" by blast
  from f' obtain i where i: "i < length G" "G ! i = f'" by (auto simp: in_set_conv_nth)
  have has: "row_has_face (csr_graph_create_cell_face n m fc) c f"
    using c(2) by (intro csr_row_has_face[OF ok f]) (auto simp: face_cells_of_def)
  from fok i gfi have "\<not> row_has_face (csr_graph_create_cell_face n m fc) (fst (fc ! f')) f
      \<and> \<not> row_has_face (csr_graph_create_cell_face n m fc) (snd (fc ! f')) f"
    by (auto simp: face_ok_def list_all_iff Let_def)
  with has c(1) show False by (auto simp: face_cells_of_def)
qed

lemma ifg_add_face_inv:
  assumes inv: "ifg_inv mx m s L G" and f: "f < m" and un: "face_marker s ! f = - 1"
    and room: "length G < mx"
  shows "ifg_inv mx m (ifg_add_face f s) L (G @ [f])"
proof -
  have fL: "f \<notin> set (L @ G)" using inv f un by (auto simp: ifg_inv_def)
  have len: "length (face_marker s) = m" "length (old_to_new s) = m"
    "length (group_face_ids s) = mx" "n_marked_faces s = length (L @ G)"
    "g_size s = length G"
    using inv by (simp_all add: ifg_inv_def)
  have o2n: "\<And>p. p < length (L @ G) \<Longrightarrow> old_to_new s ! ((L @ G) ! p) = p"
    using inv by (simp add: ifg_inv_def)
  have mark: "\<And>f'. f' < m \<Longrightarrow> face_marker s ! f' \<noteq> - 1 \<longleftrightarrow> f' \<in> set (L @ G)"
    using inv by (simp add: ifg_inv_def)
  have gfi: "\<And>i. i < length G \<Longrightarrow> group_face_ids s ! i = int (G ! i)"
    using inv by (simp add: ifg_inv_def)
  have fu: "\<And>f'. f' < first_unmarked_face_id s \<Longrightarrow> f' \<in> set (L @ G)"
    "first_unmarked_face_id s \<le> m"
    using inv by (simp_all add: ifg_inv_def)
  have sub: "set (L @ G) \<subseteq> {0..<m}" "distinct (L @ G)"
    using inv by (simp_all add: ifg_inv_def)
  have 1: "\<forall>f'<m. face_marker (ifg_add_face f s) ! f' \<noteq> - 1 \<longleftrightarrow> f' \<in> set (L @ G @ [f])"
    using mark len f by (auto simp: ifg_add_face_def nth_list_update)
  have 2: "\<forall>p<length (L @ G @ [f]). old_to_new (ifg_add_face f s) ! ((L @ G @ [f]) ! p) = p"
  proof (intro allI impI)
    fix p assume p: "p < length (L @ G @ [f])"
    show "old_to_new (ifg_add_face f s) ! ((L @ G @ [f]) ! p) = p"
    proof (cases "p < length (L @ G)")
      case True
      then have e: "(L @ G @ [f]) ! p = (L @ G) ! p"
        by (metis append_assoc nth_append)
      have "(L @ G) ! p \<noteq> f" using fL True nth_mem by metis
      then show ?thesis using o2n[OF True] e by (simp add: ifg_add_face_def)
    next
      case False
      with p have pe: "p = length (L @ G)" by simp
      have e: "(L @ G @ [f]) ! p = f" unfolding pe
        by (metis append_assoc nth_append_length)
      show ?thesis unfolding e using len f pe by (simp add: ifg_add_face_def)
    qed
  qed
  have 3: "\<forall>i<length (G @ [f]). group_face_ids (ifg_add_face f s) ! i = int ((G @ [f]) ! i)"
    using gfi len room by (auto simp: ifg_add_face_def nth_append nth_list_update less_Suc_eq)
  have 4: "\<forall>f'<first_unmarked_face_id (ifg_add_face f s). f' \<in> set (L @ G @ [f])"
    using fu(1) by (auto simp: ifg_add_face_def less_Suc_eq)
  have 5: "first_unmarked_face_id (ifg_add_face f s) \<le> m"
    using fu(2) f by (simp add: ifg_add_face_def)
  have 6: "set (L @ G @ [f]) \<subseteq> {0..<m}" "distinct (L @ G @ [f])"
    using sub fL f by auto
  have 7: "length (face_marker (ifg_add_face f s)) = m"
    "length (old_to_new (ifg_add_face f s)) = m"
    "length (group_face_ids (ifg_add_face f s)) = mx"
    "n_marked_faces (ifg_add_face f s) = length (L @ G @ [f])"
    "g_size (ifg_add_face f s) = length (G @ [f])" "length (G @ [f]) \<le> mx"
    using len room by (simp_all add: ifg_add_face_def)
  show ?thesis
    unfolding ifg_inv_def using 1 2 3 4 5 6 7 by simp
qed

lemma ifg_add_face_frame:
  "group_id (ifg_add_face f s) = group_id s" "group_sizes (ifg_add_face f s) = group_sizes s"
  by (simp_all add: ifg_add_face_def)

lemma independent_faces_snoc:
  assumes "independent_faces fc G"
    and "\<And>f'. f' \<in> set G \<Longrightarrow> face_cells_of fc f' \<inter> face_cells_of fc f = {}"
  shows "independent_faces fc (G @ [f])"
  using assms unfolding independent_faces_def by (auto simp: Int_commute)

text \<open>
  The loop on the faces keeps the invariant and the independence of the group, touches
  neither the group id nor the sizes, and admits at least one face when a face at or
  after its start is unmarked: the first such face is tested against an empty group.
\<close>

lemma ifg_scan_inv:
  "cells_ok n m fc \<Longrightarrow> g = csr_graph_create_cell_face n m fc \<Longrightarrow>
   ifg_inv mx m s L G \<Longrightarrow> independent_faces fc G \<Longrightarrow> length G < mx \<Longrightarrow>
   \<exists>G'. ifg_inv mx m (ifg_scan g fc mx m f_id s) L G' \<and> independent_faces fc G'
        \<and> length G \<le> length G'
        \<and> group_id (ifg_scan g fc mx m f_id s) = group_id s
        \<and> group_sizes (ifg_scan g fc mx m f_id s) = group_sizes s
        \<and> ((\<exists>f\<ge>f_id. f < m \<and> face_marker s ! f = - 1) \<longrightarrow> G' \<noteq> [])"
proof (induction g fc mx m f_id s arbitrary: G rule: ifg_scan.induct)
  case (1 g fc mx m f_id s)
  note ok = "1.prems"(1) and g = "1.prems"(2) and inv = "1.prems"(3)
    and ind = "1.prems"(4) and room = "1.prems"(5)
  have gs: "g_size s = length G" and gfi: "\<forall>i<length G. group_face_ids s ! i = int (G ! i)"
    using inv by (simp_all add: ifg_inv_def)
  show ?case
  proof (cases "f_id < m")
    case False
    then have "ifg_scan g fc mx m f_id s = s" by (simp add: ifg_scan.simps[of g fc mx m f_id s])
    with inv ind False show ?thesis by auto
  next
    case fm: True
    show ?thesis
    proof (cases "face_marker s ! f_id = - 1")
      case False
      have e: "ifg_scan g fc mx m f_id s = ifg_scan g fc mx m (f_id + 1) s"
        using fm False by (simp add: ifg_scan.simps[of g fc mx m f_id s])
      from "1.IH"(2)[OF fm False ok g inv ind room]
      obtain G' where G': "ifg_inv mx m (ifg_scan g fc mx m (f_id + 1) s) L G'"
        "independent_faces fc G'" "length G \<le> length G'"
        "group_id (ifg_scan g fc mx m (f_id + 1) s) = group_id s"
        "group_sizes (ifg_scan g fc mx m (f_id + 1) s) = group_sizes s"
        "(\<exists>f\<ge>f_id + 1. f < m \<and> face_marker s ! f = - 1) \<longrightarrow> G' \<noteq> []"
        by blast
      have "G' \<noteq> []" if "\<exists>f\<ge>f_id. f < m \<and> face_marker s ! f = - 1"
      proof -
        from that obtain f where f: "f \<ge> f_id" "f < m" "face_marker s ! f = - 1" by blast
        with False have "f \<noteq> f_id" by auto
        with f have "f \<ge> f_id + 1" by simp
        with f G'(6) show ?thesis by blast
      qed
      with G' show ?thesis unfolding e by blast
    next
      case un: True
      define s' where "s' = (if face_ok g fc (group_face_ids s) (g_size s) f_id
                             then ifg_add_face f_id s else s)"
      have e: "ifg_scan g fc mx m f_id s
               = (if g_size s' = mx then s' else ifg_scan g fc mx m (f_id + 1) s')"
        using fm un by (simp add: ifg_scan.simps[of g fc mx m f_id s] s'_def Let_def)
      obtain G1 where G1: "ifg_inv mx m s' L G1" "independent_faces fc G1"
        "length G \<le> length G1" "G1 \<noteq> []"
        "group_id s' = group_id s" "group_sizes s' = group_sizes s"
      proof (cases "face_ok g fc (group_face_ids s) (g_size s) f_id")
        case True
        then have s': "s' = ifg_add_face f_id s" by (simp add: s'_def)
        have i1: "ifg_inv mx m s' L (G @ [f_id])"
          unfolding s' by (rule ifg_add_face_inv[OF inv fm un room])
        have "\<And>f'. f' \<in> set G \<Longrightarrow> face_cells_of fc f' \<inter> face_cells_of fc f_id = {}"
          using face_ok_sound[OF ok fm gfi] True unfolding g gs by blast
        then have i2: "independent_faces fc (G @ [f_id])"
          by (rule independent_faces_snoc[OF ind])
        show ?thesis
          using that[OF i1 i2] by (simp add: s' ifg_add_face_frame)
      next
        case False
        then have s': "s' = s" by (simp add: s'_def)
        have "g_size s \<noteq> 0"
        proof
          assume "g_size s = 0"
          then have "face_ok g fc (group_face_ids s) (g_size s) f_id" by (simp add: face_ok_def)
          with False show False by simp
        qed
        then have "G \<noteq> []" using gs by auto
        then show ?thesis using that[of G] inv ind by (simp add: s')
      qed
      have gs1: "g_size s' = length G1" "length G1 \<le> mx"
        using G1(1) by (simp_all add: ifg_inv_def)
      show ?thesis
      proof (cases "g_size s' = mx")
        case True
        then have "ifg_scan g fc mx m f_id s = s'" using e by simp
        with G1 show ?thesis by auto
      next
        case False
        then have e2: "ifg_scan g fc mx m f_id s = ifg_scan g fc mx m (f_id + 1) s'"
          using e by simp
        have room1: "length G1 < mx" using False gs1 by simp
        from "1.IH"(1)[OF fm un s'_def False ok g G1(1,2) room1]
        obtain G' where G': "ifg_inv mx m (ifg_scan g fc mx m (f_id + 1) s') L G'"
          "independent_faces fc G'" "length G1 \<le> length G'"
          "group_id (ifg_scan g fc mx m (f_id + 1) s') = group_id s'"
          "group_sizes (ifg_scan g fc mx m (f_id + 1) s') = group_sizes s'"
          by blast
        have "G' \<noteq> []" using G'(3) G1(4) by auto
        moreover have "length G \<le> length G'" using G'(3) G1(3) by simp
        ultimately show ?thesis unfolding e2 using G' G1(5,6) by auto
      qed
    qed
  qed
qed

text \<open>
  Each round of the outer loop closes a group that is not empty, so the number of marked
  faces grows and the loop ends with every face marked.
\<close>

lemma distinct_subset_length:
  assumes "distinct L" "set L \<subseteq> {0..<m}"
  shows "length L \<le> m"
proof -
  have "card (set L) \<le> card {0..<m}" by (rule card_mono) (use assms in auto)
  then show ?thesis using assms(1) by (simp add: distinct_card)
qed

lemma distinct_missing:
  assumes "distinct L" "set L \<subseteq> {0..<m}" "length L \<noteq> m"
  shows "\<exists>f<m. f \<notin> set L"
proof (rule ccontr)
  assume "\<not> (\<exists>f<m. f \<notin> set L)"
  then have "set L = {0..<m}" using assms(2) by auto
  then have "card (set L) = m" by simp
  with assms(1,3) show False by (simp add: distinct_card)
qed

lemma distinct_full:
  assumes "distinct L" "set L \<subseteq> {0..<m}" "length L = m"
  shows "set L = {0..<m}"
proof -
  have "card (set L) = card {0..<m}" using assms(1,3) by (simp add: distinct_card)
  then show ?thesis using assms(2) by (simp add: card_subset_eq)
qed

lemma ifg_init_inv:
  "ifg_outer_inv fc mx m (ifg_init mx m) []"
  by (simp add: ifg_outer_inv_def ifg_inv_def ifg_init_def)

lemma ifg_group_inv:
  assumes ok: "cells_ok n m fc" and mx: "1 \<le> mx"
    and inv: "ifg_outer_inv fc mx m s groups" and more: "n_marked_faces s \<noteq> m"
  shows "\<exists>G'. ifg_outer_inv fc mx m
                 (ifg_group (csr_graph_create_cell_face n m fc) fc mx m s) (groups @ [G'])
             \<and> n_marked_faces s
                 < n_marked_faces (ifg_group (csr_graph_create_cell_face n m fc) fc mx m s)
             \<and> n_marked_faces (ifg_group (csr_graph_create_cell_face n m fc) fc mx m s) \<le> m"
proof -
  define g where "g = csr_graph_create_cell_face n m fc"
  define s0 where "s0 = s\<lparr>g_size := 0, group_face_ids := replicate mx (- 1)\<rparr>"
  define L where "L = concat groups"
  define s1 where "s1 = ifg_scan g fc mx m (first_unmarked_face_id s0) s0"
  have inv0: "ifg_inv mx m s0 L []" and gid: "group_id s = length groups"
    and gsz: "group_sizes s = map length groups"
    and grp: "\<forall>G\<in>set groups. G \<noteq> [] \<and> length G \<le> mx \<and> independent_faces fc G"
    using inv by (simp_all add: ifg_outer_inv_def s0_def L_def)
  have nm: "n_marked_faces s0 = length L" "distinct L" "set L \<subseteq> {0..<m}"
    using inv0 by (simp_all add: ifg_inv_def)
  have "length L \<noteq> m" using more nm(1) by (simp add: s0_def)
  from distinct_missing[OF nm(2,3) this] obtain f where f: "f < m" "f \<notin> set L" by blast
  have un: "face_marker s0 ! f = - 1" using inv0 f by (auto simp: ifg_inv_def)
  have "first_unmarked_face_id s0 \<le> f"
  proof (rule ccontr)
    assume "\<not> first_unmarked_face_id s0 \<le> f"
    then have "f < first_unmarked_face_id s0" by simp
    with inv0 have "f \<in> set L" by (simp add: ifg_inv_def)
    with f show False by simp
  qed
  with f un have ex: "\<exists>f\<ge>first_unmarked_face_id s0. f < m \<and> face_marker s0 ! f = - 1"
    by blast
  have ind0: "independent_faces fc []" by (simp add: independent_faces_def)
  have room: "length ([] :: nat list) < mx" using mx by simp
  from ifg_scan_inv[OF ok g_def inv0 ind0 room, of "first_unmarked_face_id s0"] ex
  obtain G' where G': "ifg_inv mx m s1 L G'" "independent_faces fc G'"
    "group_id s1 = group_id s0" "group_sizes s1 = group_sizes s0" "G' \<noteq> []"
    unfolding s1_def by blast
  have res: "ifg_group g fc mx m s
             = s1\<lparr>group_sizes := group_sizes s1 @ [g_size s1], group_id := group_id s1 + 1\<rparr>"
    by (simp add: ifg_group_def Let_def s1_def s0_def)
  have gl: "g_size s1 = length G'" "length G' \<le> mx" "n_marked_faces s1 = length (L @ G')"
    "distinct (L @ G')" "set (L @ G') \<subseteq> {0..<m}"
    using G'(1) by (simp_all add: ifg_inv_def)
  have 1: "ifg_inv mx m
             (s1\<lparr>group_sizes := group_sizes s1 @ [g_size s1], group_id := group_id s1 + 1,
                  g_size := 0, group_face_ids := replicate mx (- 1)\<rparr>)
             (concat (groups @ [G'])) []"
    using G'(1) by (simp add: ifg_inv_def L_def)
  have 2: "ifg_outer_inv fc mx m (ifg_group g fc mx m s) (groups @ [G'])"
    unfolding res ifg_outer_inv_def
    using 1 G' gl gid gsz grp by (auto simp: s0_def)
  have 3: "n_marked_faces s < n_marked_faces (ifg_group g fc mx m s)"
    unfolding res using gl(3) nm(1) G'(5) by (simp add: s0_def)
  have 4: "n_marked_faces (ifg_group g fc mx m s) \<le> m"
    unfolding res using distinct_subset_length[OF gl(4,5)] gl(3) by simp
  from 2 3 4 show ?thesis unfolding g_def by blast
qed

lemma ifg_groups_terminates:
  assumes ok: "cells_ok n m fc" and mx: "1 \<le> mx"
  shows "ifg_outer_inv fc mx m s groups \<Longrightarrow>
         \<exists>s' groups'. ifg_groups (csr_graph_create_cell_face n m fc) fc mx m s = Some s'
            \<and> ifg_outer_inv fc mx m s' groups' \<and> n_marked_faces s' = m"
proof (induction "m - n_marked_faces s" arbitrary: s groups rule: less_induct)
  case less
  show ?case
  proof (cases "n_marked_faces s = m")
    case True
    then have "ifg_groups (csr_graph_create_cell_face n m fc) fc mx m s = Some s"
      by (simp add: ifg_groups.simps)
    with less.prems True show ?thesis by blast
  next
    case False
    from ifg_group_inv[OF ok mx less.prems False]
    obtain G' where G': "ifg_outer_inv fc mx m
                 (ifg_group (csr_graph_create_cell_face n m fc) fc mx m s) (groups @ [G'])"
      "n_marked_faces s
         < n_marked_faces (ifg_group (csr_graph_create_cell_face n m fc) fc mx m s)"
      "n_marked_faces (ifg_group (csr_graph_create_cell_face n m fc) fc mx m s) \<le> m"
      by blast
    have dec: "m - n_marked_faces (ifg_group (csr_graph_create_cell_face n m fc) fc mx m s)
               < m - n_marked_faces s"
      using G'(2,3) by simp
    have e: "ifg_groups (csr_graph_create_cell_face n m fc) fc mx m s
             = ifg_groups (csr_graph_create_cell_face n m fc) fc mx m
                 (ifg_group (csr_graph_create_cell_face n m fc) fc mx m s)"
      using False by (subst ifg_groups.simps) simp
    from less.hyps[OF dec G'(1)] show ?thesis unfolding e .
  qed
qed

text \<open>
  The last loop inverts \<open>old_to_new\<close>: the new to old numbering lists the faces in the
  order in which they were marked, group after group.
\<close>

lemma new_to_old_fold:
  assumes len: "length L = m" and set: "set L = {0..<m}"
    and o2n: "\<forall>p<m. o2n ! (L ! p) = p" and len0: "length n2o0 = m"
  shows "fold (\<lambda>f n2o. n2o[o2n ! f := f]) [0..<m] n2o0 = L"
proof -
  have pos: "\<exists>p<m. L ! p = f" if "f < m" for f
    using that set len by (metis atLeastLessThan_iff in_set_conv_nth zero_le)
  have bound: "o2n ! f < m" if "f < m" for f
    using pos[OF that] o2n by auto
  have inj: "f = f'" if "f < m" "f' < m" "o2n ! f = o2n ! f'" for f f'
    using pos[OF that(1)] pos[OF that(2)] o2n that(3) by auto
  have R: "k \<le> m \<Longrightarrow> length (fold (\<lambda>f n2o. n2o[o2n ! f := f]) [0..<k] n2o0) = m
      \<and> (\<forall>f<k. fold (\<lambda>f n2o. n2o[o2n ! f := f]) [0..<k] n2o0 ! (o2n ! f) = f)" for k
  proof (induction k)
    case 0
    then show ?case by (simp add: len0)
  next
    case (Suc k)
    define r where "r = fold (\<lambda>f n2o. n2o[o2n ! f := f]) [0..<k] n2o0"
    from Suc have IH: "length r = m" "\<forall>f<k. r ! (o2n ! f) = f" by (simp_all add: r_def)
    have step: "fold (\<lambda>f n2o. n2o[o2n ! f := f]) [0..<Suc k] n2o0 = r[o2n ! k := k]"
      by (simp add: r_def)
    have "r[o2n ! k := k] ! (o2n ! f) = f" if "f < Suc k" for f
    proof (cases "f = k")
      case True
      then show ?thesis using bound[of k] Suc.prems IH(1) by simp
    next
      case False
      with that have fk: "f < k" by simp
      have "o2n ! f \<noteq> o2n ! k" using inj[of f k] fk Suc.prems by auto
      then show ?thesis using IH(2) fk by simp
    qed
    then show ?case unfolding step using IH(1) by simp
  qed
  from R[OF order_refl] have lenR: "length (fold (\<lambda>f n2o. n2o[o2n ! f := f]) [0..<m] n2o0) = m"
    and nthR: "\<And>f. f < m \<Longrightarrow> fold (\<lambda>f n2o. n2o[o2n ! f := f]) [0..<m] n2o0 ! (o2n ! f) = f"
    by simp_all
  show ?thesis
  proof (rule nth_equalityI)
    show "length (fold (\<lambda>f n2o. n2o[o2n ! f := f]) [0..<m] n2o0) = length L"
      using lenR len by simp
  next
    fix p assume "p < length (fold (\<lambda>f n2o. n2o[o2n ! f := f]) [0..<m] n2o0)"
    then have p: "p < m" using lenR by simp
    have Lp: "L ! p < m" using p len set nth_mem[of p L] by auto
    from nthR[OF Lp] o2n p show "fold (\<lambda>f n2o. n2o[o2n ! f := f]) [0..<m] n2o0 ! p = L ! p"
      by simp
  qed
qed

lemma independent_face_groups_groups:
  assumes ok: "cells_ok n_cells_ext n_faces face_cell" and mx: "1 \<le> max_group_size"
    and len: "length new_to_old = n_faces"
  shows "\<exists>groups. independent_face_groups max_group_size n_cells_ext n_faces face_cell new_to_old
                     = Some (concat groups, length groups, map length groups)
           \<and> distinct (concat groups) \<and> set (concat groups) = {0..<n_faces}
           \<and> (\<forall>G\<in>set groups. G \<noteq> [] \<and> length G \<le> max_group_size
                                \<and> independent_faces face_cell G)"
proof -
  from ifg_groups_terminates[OF ok mx ifg_init_inv]
  obtain s groups where s:
    "ifg_groups (csr_graph_create_cell_face n_cells_ext n_faces face_cell) face_cell
       max_group_size n_faces (ifg_init max_group_size n_faces) = Some s"
    "ifg_outer_inv face_cell max_group_size n_faces s groups" "n_marked_faces s = n_faces"
    by blast
  define L where "L = concat groups"
  have inv: "ifg_inv max_group_size n_faces
               (s\<lparr>g_size := 0, group_face_ids := replicate max_group_size (- 1)\<rparr>) L []"
    and gid: "group_id s = length groups" and gsz: "group_sizes s = map length groups"
    and grp: "\<forall>G\<in>set groups. G \<noteq> [] \<and> length G \<le> max_group_size
                                \<and> independent_faces face_cell G"
    using s(2) by (simp_all add: ifg_outer_inv_def L_def)
  have d: "distinct L" and sub: "set L \<subseteq> {0..<n_faces}" and lenL: "length L = n_faces"
    and o2n: "\<forall>p<n_faces. old_to_new s ! (L ! p) = p"
    using inv s(3) by (auto simp: ifg_inv_def)
  have full: "set L = {0..<n_faces}" by (rule distinct_full[OF d sub lenL])
  have n2o: "fold (\<lambda>f_id n2o. n2o[old_to_new s ! f_id := f_id]) [0..<n_faces] new_to_old = L"
    by (rule new_to_old_fold[OF lenL full o2n len])
  have "independent_face_groups max_group_size n_cells_ext n_faces face_cell new_to_old
        = Some (concat groups, length groups, map length groups)"
    by (simp add: independent_face_groups_def s(1) n2o gid gsz L_def)
  with d full grp show ?thesis unfolding L_def by blast
qed

lemma concat_unique_group:
  assumes d: "distinct (concat groups)" and ne: "\<forall>G\<in>set groups. G \<noteq> []"
    and f: "f \<in> set (concat groups)"
  shows "\<exists>!g. g < length groups \<and> f \<in> set (groups ! g)"
proof -
  from f obtain G where G: "G \<in> set groups" "f \<in> set G" by auto
  then obtain g where g: "g < length groups" "groups ! g = G" by (auto simp: in_set_conv_nth)
  have "[] \<notin> set groups" using ne by auto
  then have "removeAll [] groups = groups" by (rule removeAll_id)
  then have dg: "distinct groups" using d by (simp add: distinct_concat_iff)
  have "g' = g" if "g' < length groups" "f \<in> set (groups ! g')" for g'
  proof (rule ccontr)
    assume neq: "g' \<noteq> g"
    then have "groups ! g' \<noteq> groups ! g"
      using dg that(1) g(1) by (simp add: nth_eq_iff_index_eq)
    moreover have "groups ! g' \<in> set groups" "groups ! g \<in> set groups"
      using that(1) g(1) by simp_all
    ultimately have "set (groups ! g') \<inter> set (groups ! g) = {}"
      using d by (simp add: distinct_concat_iff)
    with that(2) G(2) g(2) show False by auto
  qed
  with g G(2) show ?thesis by blast
qed

lemma path_faces_groups:
  "independent_face_groups 2 4 3 path_faces [0, 1, 2] = Some ([0, 2, 1], 2, [2, 1])"
  by code_simp

lemma path_faces_ok: "cells_ok 4 3 path_faces"
  by code_simp

text \<open>
  C6. The claim: \<^verbatim>\<open>_independent_face_groups\<close> assigns every face to exactly one group,
  every group has at most \<open>max_group_size\<close> faces, the concatenation of the groups in
  group order is the new to old numbering, no two faces of a group share a cell, and the
  loop ends for every input with \<open>max_group_size\<close> at least 1.

  Proved for a well-formed connectivity and an output array of \<open>n_faces\<close> entries: the
  function returns, and there are groups of faces whose concatenation is the returned
  numbering and whose lengths are the returned sizes, such that every face lies in
  exactly one group and every group is independent and within the maximum size.
\<close>

theorem independent_face_groups_correct:
  assumes "1 \<le> max_group_size" and "cells_ok n_cells_ext n_faces face_cell"
    and "length new_to_old = n_faces"
  shows "\<exists>groups. independent_face_groups max_group_size n_cells_ext n_faces face_cell new_to_old
                     = Some (concat groups, length groups, map length groups)
           \<and> (\<forall>f<n_faces. \<exists>!g. g < length groups \<and> f \<in> set (groups ! g))
           \<and> set (concat groups) = {0..<n_faces} \<and> distinct (concat groups)
           \<and> (\<forall>G\<in>set groups. length G \<le> max_group_size \<and> independent_faces face_cell G)"
proof -
  from independent_face_groups_groups[OF assms(2,1,3)]
  obtain groups where g:
    "independent_face_groups max_group_size n_cells_ext n_faces face_cell new_to_old
       = Some (concat groups, length groups, map length groups)"
    "distinct (concat groups)" "set (concat groups) = {0..<n_faces}"
    "\<forall>G\<in>set groups. G \<noteq> [] \<and> length G \<le> max_group_size \<and> independent_faces face_cell G"
    by blast
  have ne: "\<forall>G\<in>set groups. G \<noteq> []" using g(4) by blast
  have "\<exists>!gi. gi < length groups \<and> f \<in> set (groups ! gi)" if "f < n_faces" for f
  proof -
    have "f \<in> set (concat groups)" unfolding g(3) using that by simp
    then show ?thesis by (rule concat_unique_group[OF g(2) ne])
  qed
  with g show ?thesis by blast
qed

theorem independent_face_groups_correct_witness:
  "independent_face_groups 2 4 3 path_faces [0, 1, 2] = Some ([0, 2, 1], 2, [2, 1])
   \<and> (\<exists>groups. concat groups = [0, 2, 1] \<and> map length groups = [2, 1]
         \<and> (\<forall>f<3. \<exists>!g. g < length groups \<and> f \<in> set (groups ! g))
         \<and> (\<forall>G\<in>set groups. length G \<le> 2 \<and> independent_faces path_faces G))"
proof -
  have "\<exists>groups. independent_face_groups 2 4 3 path_faces [0, 1, 2]
                     = Some (concat groups, length groups, map length groups)
           \<and> (\<forall>f<3. \<exists>!g. g < length groups \<and> f \<in> set (groups ! g))
           \<and> set (concat groups) = {0..<3} \<and> distinct (concat groups)
           \<and> (\<forall>G\<in>set groups. length G \<le> 2 \<and> independent_faces path_faces G)"
    by (rule independent_face_groups_correct) (simp_all add: path_faces_ok)
  then obtain groups where g:
    "independent_face_groups 2 4 3 path_faces [0, 1, 2]
       = Some (concat groups, length groups, map length groups)"
    "\<forall>f<3. \<exists>!g. g < length groups \<and> f \<in> set (groups ! g)"
    "\<forall>G\<in>set groups. length G \<le> 2 \<and> independent_faces path_faces G"
    by blast
  from g(1) have "Some ([0, 2, 1], 2, [2, 1])
                   = Some (concat groups, length groups, map length groups)"
    unfolding path_faces_groups .
  then have c: "concat groups = [0, 2, 1]" "map length groups = [2, 1]"
    by (metis option.inject prod.inject)+
  show ?thesis
    by (intro conjI exI[of _ groups] path_faces_groups c g(2) g(3))
qed

subsection \<open>Rewriting the connectivity with the identity\<close>

















subsection \<open>The new to old numberings are bijections\<close>

text \<open>
  The end of \<^verbatim>\<open>_renum_face_multipass\<close>: the faces are ordered by their keys, and the loop
  that fills the group index copies that order to the first \<open>n_i_faces\<close> entries of
  \<^verbatim>\<open>new_to_old_i\<close>.
\<close>

lemma multipass_index_parts:
  assumes "multipass_index mesh n_i_threads new_to_old_i (n_grps, w) = Some (n2o, ng, gi)"
  shows "\<exists>faces_keys gi1 r.
      for_loop 0 (int (n_i_faces mesh)) (\<lambda>f_id keys. do {
                     tag \<leftarrow> rd (f_t_id w) f_id;
                     c \<leftarrow> rd (i_face_cells mesh) f_id;
                     Some (keys @ [if fst c < snd c then (tag, int (fst c) - 1, int (snd c) - 1)
                                   else (tag, int (snd c) - 1, int (fst c) - 1)])
                   }) [] = Some faces_keys
    \<and> for_loop 0 (int (n_i_faces mesh)) (\<lambda>fl_id r. do {
            f_id \<leftarrow> rd (map int (cs_order_lnum_allocated_s faces_keys)) fl_id;
            n2o \<leftarrow> wr (fst r) fl_id (nat f_id);
            tag \<leftarrow> rd (f_t_id w) f_id;
            t_id \<leftarrow> c_mod tag n_i_threads;
            g_id \<leftarrow> c_div (tag - t_id) n_i_threads;
            gi \<leftarrow> wr (snd r) ((t_id * n_grps + g_id) * 2 + 1) (fl_id + 1);
            Some (n2o, gi)
          }) (new_to_old_i, gi1) = Some r
    \<and> n2o = fst r"
  using assms unfolding multipass_index_def prod.case Let_def bind_eq_Some_conv
  by (elim exE conjE) (simp only: option.inject prod.inject, blast)

lemma multipass_index_new_to_old:
  assumes "multipass_index mesh n_i_threads new_to_old_i s = Some (n2o, ng, gi)"
  shows "distinct (take (n_i_faces mesh) n2o)
       \<and> set (take (n_i_faces mesh) n2o) = {0..<n_i_faces mesh}"
proof -
  obtain n_grps w where s: "s = (n_grps, w)" by (cases s)
  define m where "m = n_i_faces mesh"
  from multipass_index_parts[OF assms[unfolded s]]
  obtain faces_keys gi1 r where
    k: "for_loop 0 (int m) (\<lambda>f_id keys. do {
                     tag \<leftarrow> rd (f_t_id w) f_id;
                     c \<leftarrow> rd (i_face_cells mesh) f_id;
                     Some (keys @ [if fst c < snd c then (tag, int (fst c) - 1, int (snd c) - 1)
                                   else (tag, int (snd c) - 1, int (fst c) - 1)])
                   }) [] = Some faces_keys"
    and r: "for_loop 0 (int m) (\<lambda>fl_id r. do {
            f_id \<leftarrow> rd (map int (cs_order_lnum_allocated_s faces_keys)) fl_id;
            n2o \<leftarrow> wr (fst r) fl_id (nat f_id);
            tag \<leftarrow> rd (f_t_id w) f_id;
            t_id \<leftarrow> c_mod tag n_i_threads;
            g_id \<leftarrow> c_div (tag - t_id) n_i_threads;
            gi \<leftarrow> wr (snd r) ((t_id * n_grps + g_id) * 2 + 1) (fl_id + 1);
            Some (n2o, gi)
          }) (new_to_old_i, gi1) = Some r"
    and n2o: "n2o = fst r"
    unfolding m_def by blast
  define order where "order = cs_order_lnum_allocated_s faces_keys"
  have "length faces_keys = nat (int m)"
    by (rule for_loop_inv[OF k, where P = "\<lambda>i keys. length keys = nat i"])
       (auto simp: bind_eq_Some_conv nat_add_distrib)
  then have lk: "length faces_keys = m" by simp
  have lo: "length order = m" by (simp add: order_def cs_order_length lk)
  have "nat (int m) \<le> length (fst r) \<and> (\<forall>p<nat (int m). fst r ! p = order ! p)"
  proof (rule for_loop_inv[OF r,
        where P = "\<lambda>i r. nat i \<le> length (fst r) \<and> (\<forall>p<nat i. fst r ! p = order ! p)"])
    show "0 \<le> int m" by simp
    show "nat 0 \<le> length (fst (new_to_old_i, gi1))
          \<and> (\<forall>p<nat 0. fst (new_to_old_i, gi1) ! p = order ! p)"
      by simp
  next
    fix i :: int and t t' :: "nat list \<times> int list"
    assume i: "0 \<le> i" "i < int m"
      and P: "nat i \<le> length (fst t) \<and> (\<forall>p<nat i. fst t ! p = order ! p)"
      and b: "do {
            f_id \<leftarrow> rd (map int (cs_order_lnum_allocated_s faces_keys)) i;
            n2o \<leftarrow> wr (fst t) i (nat f_id);
            tag \<leftarrow> rd (f_t_id w) f_id;
            t_id \<leftarrow> c_mod tag n_i_threads;
            g_id \<leftarrow> c_div (tag - t_id) n_i_threads;
            gi \<leftarrow> wr (snd t) ((t_id * n_grps + g_id) * 2 + 1) (i + 1);
            Some (n2o, gi)
          } = Some t'"
    from b obtain f_id n2o' where
      f: "rd (map int order) i = Some f_id" and w: "wr (fst t) i (nat f_id) = Some n2o'"
      and t': "fst t' = n2o'"
      unfolding order_def[symmetric] by (auto simp: bind_eq_Some_conv)
    from f i lo have fid: "nat f_id = order ! nat i"
      by (auto simp: rd_def split: if_splits)
    from w have wl: "nat i < length (fst t)" and n2o': "n2o' = (fst t)[nat i := nat f_id]"
      using i by (auto simp: wr_def split: if_splits)
    have Si: "nat (i + 1) = Suc (nat i)" using i by simp
    show "nat (i + 1) \<le> length (fst t') \<and> (\<forall>p<nat (i + 1). fst t' ! p = order ! p)"
      unfolding Si t' n2o' using wl P fid by (auto simp: nth_list_update less_Suc_eq)
  qed
  then have len: "m \<le> length n2o" and nth: "\<And>p. p < m \<Longrightarrow> n2o ! p = order ! p"
    by (simp_all add: n2o)
  have "take m n2o = order"
    by (rule nth_equalityI) (use len lo nth in auto)
  then show ?thesis
    unfolding m_def[symmetric]
    using cs_order_distinct[of faces_keys] cs_order_set[of faces_keys] lk
    by (simp add: order_def)
qed

lemma renum_face_multipass_new_to_old:
  assumes "renum_face_multipass cfg mesh n_i_threads new_to_old_i n_grps grp_index
           = Some (Some (0, n2o, ng, gi))"
  shows "distinct (take (n_i_faces mesh) n2o)
       \<and> set (take (n_i_faces mesh) n2o) = {0..<n_i_faces mesh}"
proof -
  from assms obtain s2 r where "multipass_index mesh n_i_threads new_to_old_i s2 = Some r"
    "n2o = fst r"
    by (auto simp: renum_face_multipass_def bind_eq_Some_conv
             split: if_splits option.splits)
  then have "multipass_index mesh n_i_threads new_to_old_i s2
             = Some (n2o, fst (snd r), snd (snd r))"
    by simp
  then show ?thesis by (rule multipass_index_new_to_old)
qed

text \<open>The boundary faces: the first \<open>n_b_faces\<close> entries are the order by cell.\<close>

lemma b_new_to_old_take:
  "take (n_b_faces mesh) (b_new_to_old mesh new_to_old_b)
   = cs_order_lnum_allocated_s (map (\<lambda>ii. (b_face_cells mesh ! ii, ii)) [0..<n_b_faces mesh])"
proof -
  let ?order = "cs_order_lnum_allocated_s
                  (map (\<lambda>ii. (b_face_cells mesh ! ii, ii)) [0..<n_b_faces mesh])"
  have l: "length ?order = n_b_faces mesh" by (simp add: cs_order_length)
  have "map (\<lambda>ii. ?order ! ii) [0..<n_b_faces mesh] = ?order"
    using map_nth[of ?order] unfolding l .
  then show ?thesis using l by (simp add: b_new_to_old_def)
qed

lemma b_new_to_old_bijection:
  "distinct (take (n_b_faces mesh) (b_new_to_old mesh new_to_old_b))
   \<and> set (take (n_b_faces mesh) (b_new_to_old mesh new_to_old_b)) = {0..<n_b_faces mesh}"
  unfolding b_new_to_old_take by (simp add: cs_order_distinct cs_order_set)

text \<open>
  The tags that \<^verbatim>\<open>_renum_face_multipass_assign\<close> writes: the thread found for a face is
  below the number of threads, since the walk over the cell index reads the entry after
  it. Neither the assignment nor the redistribution touches the list of faces or a tag
  outside of it.
\<close>

lemma mp_step_rel_refl: "mp_step_rel n_thr g fls w w"
  by (simp add: mp_step_rel_def)

lemma mp_step_rel_trans:
  assumes "mp_step_rel n_thr g fls w w1" "mp_step_rel n_thr g fls w1 w2"
  shows "mp_step_rel n_thr g fls w w2"
  unfolding mp_step_rel_def
proof (intro conjI allI impI)
  fix f assume f: "f < length (f_t_id w)"
  from assms f have a: "f_t_id w1 ! f = f_t_id w ! f
           \<or> ((\<exists>i. 0 \<le> i \<and> i < fls \<and> faces_list w ! nat i = int f)
              \<and> (f_t_id w1 ! f = - 1
                 \<or> (g * n_thr \<le> f_t_id w1 ! f \<and> f_t_id w1 ! f < g * n_thr + n_thr)))"
    and b: "f_t_id w2 ! f = f_t_id w1 ! f
           \<or> ((\<exists>i. 0 \<le> i \<and> i < fls \<and> faces_list w ! nat i = int f)
              \<and> (f_t_id w2 ! f = - 1
                 \<or> (g * n_thr \<le> f_t_id w2 ! f \<and> f_t_id w2 ! f < g * n_thr + n_thr)))"
    by (simp_all add: mp_step_rel_def)
  from a b show "f_t_id w2 ! f = f_t_id w ! f
           \<or> ((\<exists>i. 0 \<le> i \<and> i < fls \<and> faces_list w ! nat i = int f)
              \<and> (f_t_id w2 ! f = - 1
                 \<or> (g * n_thr \<le> f_t_id w2 ! f \<and> f_t_id w2 ! f < g * n_thr + n_thr)))"
    by auto
qed (use assms in \<open>simp_all add: mp_step_rel_def\<close>)

lemma mp_step_rel_mono:
  assumes "mp_step_rel n_thr g i w w'" "i \<le> fls"
  shows "mp_step_rel n_thr g fls w w'"
  using assms unfolding mp_step_rel_def by (meson order_less_le_trans)

lemma mp_step_rel_tci:
  assumes "length tci = length (t_cell_index w)"
  shows "mp_step_rel n_thr g fls w (w\<lparr>t_cell_index := tci\<rparr>)"
  using assms by (simp add: mp_step_rel_def)

lemma assign_next_thread_bounds:
  "assign_next_thread tci c t = Some t' \<Longrightarrow> t \<le> t' \<and> t' + 1 < int (length tci)"
proof (induction tci c t rule: assign_next_thread.induct)
  case (1 tci c_id_0 t_id)
  from "1.prems" obtain b where b: "rd tci (t_id + 1) = Some b"
    and r: "(if c_id_0 \<ge> b then assign_next_thread tci c_id_0 (t_id + 1) else Some t_id) = Some t'"
    by (auto simp: assign_next_thread.simps[of tci c_id_0 t_id] bind_eq_Some_conv)
  show ?case
  proof (cases "c_id_0 \<ge> b")
    case True
    with r have "assign_next_thread tci c_id_0 (t_id + 1) = Some t'" by simp
    from "1.IH"[OF b True this] show ?thesis by simp
  next
    case False
    with r have "t' = t_id" by simp
    with b show ?thesis by (auto simp: rd_def split: if_splits)
  qed
qed

lemma assign_face_step:
  assumes a: "assign_face n_thr g fl_id (t, w) = Some (t', w')" and t: "0 \<le> t"
    and len: "int (length (t_cell_index w)) = n_thr + 1"
  shows "0 \<le> t' \<and> t_cell_index w' = t_cell_index w \<and> mp_step_rel n_thr g (fl_id + 1) w w'"
proof -
  from a obtain f c t1 lo hi where
    f: "rd (faces_list w) fl_id = Some f" and c: "rd (l_face_cells w) f = Some c"
    and t1: "assign_next_thread (t_cell_index w) (fst c) t = Some t1"
    and r: "(if fst c \<ge> lo \<and> snd c < hi then do {
       fti \<leftarrow> wr (f_t_id w) f (t1 + g * n_thr);
       n \<leftarrow> rd (n_t_faces w) t1;
       ntf \<leftarrow> wr (n_t_faces w) t1 (n + 1);
       tfl \<leftarrow> wr (t_face_last w) t1 fl_id;
       Some (t1, w\<lparr>f_t_id := fti, n_t_faces := ntf, t_face_last := tfl\<rparr>)
     } else do {
       fti \<leftarrow> wr (f_t_id w) f (- 1);
       Some (t1, w\<lparr>f_t_id := fti\<rparr>)
     }) = Some (t', w')"
    unfolding assign_face_def prod.case bind_eq_Some_conv by blast
  from assign_next_thread_bounds[OF t1] t len have tb: "0 \<le> t1" "t1 < n_thr" by simp_all
  from f have fl: "0 \<le> fl_id" "faces_list w ! nat fl_id = f"
    by (auto simp: rd_def split: if_splits)
  from r obtain v where w': "t' = t1" "faces_list w' = faces_list w"
    "t_cell_index w' = t_cell_index w" "length (n_t_faces w') = length (n_t_faces w)"
    "f_t_id w' = (f_t_id w)[nat f := v]" "0 \<le> f" "f < int (length (f_t_id w))"
    "v = - 1 \<or> v = t1 + g * n_thr"
    by (auto simp: bind_eq_Some_conv wr_def split: if_splits)
  have "mp_step_rel n_thr g (fl_id + 1) w w'"
    unfolding mp_step_rel_def
  proof (intro conjI allI impI)
    fix f' assume f': "f' < length (f_t_id w)"
    show "f_t_id w' ! f' = f_t_id w ! f'
           \<or> ((\<exists>i. 0 \<le> i \<and> i < fl_id + 1 \<and> faces_list w ! nat i = int f')
              \<and> (f_t_id w' ! f' = - 1
                 \<or> (g * n_thr \<le> f_t_id w' ! f' \<and> f_t_id w' ! f' < g * n_thr + n_thr)))"
    proof (cases "f' = nat f")
      case True
      then have "faces_list w ! nat fl_id = int f'" using fl(2) w'(6) by simp
      then have ex: "\<exists>i. 0 \<le> i \<and> i < fl_id + 1 \<and> faces_list w ! nat i = int f'"
        using fl(1) by (intro exI[of _ fl_id]) simp
      have "f_t_id w' ! f' = v" using True f' w'(5) by simp
      with w'(8) tb ex show ?thesis by auto
    next
      case False
      then show ?thesis using w'(5) by simp
    qed
  qed (simp_all add: w')
  with tb w' show ?thesis by simp
qed

lemma assign_reset_frame:
  assumes "for_loop 0 n_g (\<lambda>t_id w. do {
             ntf \<leftarrow> wr (n_t_faces w) t_id 0;
             tfl \<leftarrow> wr (t_face_last w) t_id fls;
             Some (w\<lparr>n_t_faces := ntf, t_face_last := tfl\<rparr>)
           }) w = Some w1"
  shows "faces_list w1 = faces_list w \<and> f_t_id w1 = f_t_id w
       \<and> t_cell_index w1 = t_cell_index w \<and> length (n_t_faces w1) = length (n_t_faces w)"
proof (cases "0 \<le> n_g")
  case True
  show ?thesis
    by (rule for_loop_inv[OF assms True,
          where P = "\<lambda>i w1. faces_list w1 = faces_list w \<and> f_t_id w1 = f_t_id w
             \<and> t_cell_index w1 = t_cell_index w \<and> length (n_t_faces w1) = length (n_t_faces w)"])
       (auto simp: bind_eq_Some_conv wr_def split: if_splits)
next
  case False
  then have "w1 = w" using assms by (simp add: for_loop.simps[of 0 n_g])
  then show ?thesis by simp
qed

lemma assign_face_loop_step:
  assumes i: "0 \<le> i" "i < fls"
    and P: "0 \<le> fst s \<and> t_cell_index (snd s) = t_cell_index w
            \<and> mp_step_rel n_thr g i w (snd s)"
    and b: "assign_face n_thr g i s = Some s'"
    and len: "int (length (t_cell_index w)) = n_thr + 1"
  shows "0 \<le> fst s' \<and> t_cell_index (snd s') = t_cell_index w
         \<and> mp_step_rel n_thr g (i + 1) w (snd s')"
proof -
  obtain t a where s: "s = (t, a)" by (cases s)
  obtain t' a' where s': "s' = (t', a')" by (cases s')
  have P1: "0 \<le> t" and P2: "t_cell_index a = t_cell_index w"
    and P3: "mp_step_rel n_thr g i w a"
    using P by (simp_all add: s)
  have l: "int (length (t_cell_index a)) = n_thr + 1" using P2 len by simp
  from assign_face_step[OF b[unfolded s s'] P1 l]
  have st1: "0 \<le> t'" and st2: "t_cell_index a' = t_cell_index a"
    and st3: "mp_step_rel n_thr g (i + 1) a a'"
    by blast+
  have "mp_step_rel n_thr g (i + 1) w a"
    by (rule mp_step_rel_mono[OF P3]) simp
  then have "mp_step_rel n_thr g (i + 1) w a'"
    using st3 by (rule mp_step_rel_trans)
  then show ?thesis
    unfolding s' using st1 st2 P2 by simp
qed

lemma assign_rel:
  assumes a: "renum_face_multipass_assign n_thr n_g g fls w = Some w'"
    and len: "int (length (t_cell_index w)) = n_thr + 1"
  shows "t_cell_index w' = t_cell_index w \<and> mp_step_rel n_thr g fls w w'"
proof -
  from a obtain w1 r where
    w1: "for_loop 0 n_g (\<lambda>t_id w. do {
             ntf \<leftarrow> wr (n_t_faces w) t_id 0;
             tfl \<leftarrow> wr (t_face_last w) t_id fls;
             Some (w\<lparr>n_t_faces := ntf, t_face_last := tfl\<rparr>)
           }) w = Some w1"
    and r: "for_loop 0 fls (assign_face n_thr g) (0, w1) = Some r" and w'0: "Some (snd r) = Some w'"
    unfolding renum_face_multipass_assign_def bind_eq_Some_conv by blast
  from w'0 have w': "w' = snd r" by simp
  note fr = assign_reset_frame[OF w1]
  have rel1: "mp_step_rel n_thr g 0 w w1" using fr by (simp add: mp_step_rel_def)
  show ?thesis
  proof (cases "0 \<le> fls")
    case True
    have init: "0 \<le> fst (0 :: int, w1) \<and> t_cell_index (snd (0 :: int, w1)) = t_cell_index w
            \<and> mp_step_rel n_thr g 0 w (snd (0 :: int, w1))"
      using fr rel1 by simp
    have "0 \<le> fst r \<and> t_cell_index (snd r) = t_cell_index w
          \<and> mp_step_rel n_thr g fls w (snd r)"
      by (rule for_loop_inv[OF r True,
          where P = "\<lambda>i s. 0 \<le> fst s \<and> t_cell_index (snd s) = t_cell_index w
                          \<and> mp_step_rel n_thr g i w (snd s)", OF init])
         (rule assign_face_loop_step[OF _ _ _ _ len])
    then show ?thesis by (simp add: w')
  next
    case False
    then have "r = (0, w1)" using r by (simp add: for_loop.simps[of 0 fls])
    then have "w' = w1" using w' by simp
    then show ?thesis
      using fr by (simp add: mp_step_rel_def)
  qed
qed

lemma redistribute_boundary_frame:
  assumes "redistribute_boundary n_thr g relax fls mean t_id w = Some w'"
  shows "\<exists>tci. w' = w\<lparr>t_cell_index := tci\<rparr> \<and> length tci = length (t_cell_index w)"
proof -
  have "w' = w \<or> (\<exists>i v. w' = w\<lparr>t_cell_index := (t_cell_index w)[i := v]\<rparr>)"
    using assms unfolding redistribute_boundary_def Let_def
    by (auto simp: bind_eq_Some_conv wr_def split: if_splits)
  then show ?thesis
  proof
    assume "w' = w"
    then have "w' = w\<lparr>t_cell_index := t_cell_index w\<rparr>" by simp
    then show ?thesis by blast
  next
    assume "\<exists>i v. w' = w\<lparr>t_cell_index := (t_cell_index w)[i := v]\<rparr>"
    then obtain i v where "w' = w\<lparr>t_cell_index := (t_cell_index w)[i := v]\<rparr>" by blast
    moreover have "length ((t_cell_index w)[i := v]) = length (t_cell_index w)" by simp
    ultimately show ?thesis by blast
  qed
qed

lemma redistribute_boundaries_rel:
  assumes "for_loop 0 k (redistribute_boundary n_thr g relax fls mean) w = Some w1"
  shows "mp_step_rel n_thr g fls w w1"
proof (cases "0 \<le> k")
  case True
  show ?thesis
  proof (rule for_loop_inv[OF assms True, where P = "\<lambda>i w1. mp_step_rel n_thr g fls w w1"])
    show "mp_step_rel n_thr g fls w w" by (rule mp_step_rel_refl)
  next
    fix i :: int and s s' :: mp_arrays
    assume P: "mp_step_rel n_thr g fls w s"
      and b: "redistribute_boundary n_thr g relax fls mean i s = Some s'"
    from redistribute_boundary_frame[OF b] obtain tci where
      "s' = s\<lparr>t_cell_index := tci\<rparr>" "length tci = length (t_cell_index s)"
      by blast
    then have "mp_step_rel n_thr g fls s s'" using mp_step_rel_tci by simp
    with P show "mp_step_rel n_thr g fls w s'" by (rule mp_step_rel_trans)
  qed
next
  case False
  then have "w1 = w" using assms by (simp add: for_loop.simps[of 0 k])
  then show ?thesis by (simp add: mp_step_rel_refl)
qed

lemma redistribute_rel:
  assumes a: "renum_face_multipass_redistribute n_thr n_g g relax fls w = Some w'"
    and len: "int (length (t_cell_index w)) = n_thr + 1"
  shows "mp_step_rel n_thr g fls w w'"
proof (cases "n_g < 2")
  case True
  then have "w' = w" using a by (simp add: renum_face_multipass_redistribute_def)
  then show ?thesis by (simp add: mp_step_rel_refl)
next
  case False
  define prev where "prev = take (nat (n_g + 1)) (t_cell_index w)"
  from a False obtain mean w1 w2 where
    w1: "for_loop 0 (n_g - 1) (redistribute_boundary n_thr g relax fls mean) w = Some w1"
    and w2: "renum_face_multipass_assign n_thr n_g g fls w1 = Some w2"
    and w': "w' = w2 \<or> renum_face_multipass_assign n_thr n_g g fls
               (w2\<lparr>t_cell_index := prev @ drop (nat (n_g + 1)) (t_cell_index w2)\<rparr>) = Some w'"
    unfolding renum_face_multipass_redistribute_def Let_def prev_def
    by (auto simp: bind_eq_Some_conv split: if_splits)
  have r1: "mp_step_rel n_thr g fls w w1" by (rule redistribute_boundaries_rel[OF w1])
  then have l1: "int (length (t_cell_index w1)) = n_thr + 1"
    using len by (simp add: mp_step_rel_def)
  from assign_rel[OF w2 l1] have r2: "mp_step_rel n_thr g fls w1 w2"
    and t2: "t_cell_index w2 = t_cell_index w1"
    by simp_all
  have r12: "mp_step_rel n_thr g fls w w2" using r1 r2 by (rule mp_step_rel_trans)
  from w' show ?thesis
  proof
    assume "w' = w2"
    with r12 show ?thesis by simp
  next
    let ?w3 = "w2\<lparr>t_cell_index := prev @ drop (nat (n_g + 1)) (t_cell_index w2)\<rparr>"
    assume a3: "renum_face_multipass_assign n_thr n_g g fls ?w3 = Some w'"
    have l2: "length (t_cell_index w2) = length (t_cell_index w)"
      using r12 by (simp add: mp_step_rel_def)
    have l3: "length (prev @ drop (nat (n_g + 1)) (t_cell_index w2)) = length (t_cell_index w2)"
      unfolding prev_def using l2 by simp
    have r3: "mp_step_rel n_thr g fls w2 ?w3" by (rule mp_step_rel_tci[OF l3])
    have l3': "int (length (t_cell_index ?w3)) = n_thr + 1" using l3 l2 len by simp
    from assign_rel[OF a3 l3'] have r4: "mp_step_rel n_thr g fls ?w3 w'" by simp
    from r12 r3 have "mp_step_rel n_thr g fls w ?w3" by (rule mp_step_rel_trans)
    then show ?thesis using r4 by (rule mp_step_rel_trans)
  qed
qed

text \<open>
  One pass: the cell index keeps its size, the faces left without a thread are moved to
  the front of the list, and the invariant of the loop on the passes is kept.
\<close>

lemma wr_length: "wr xs i v = Some ys \<Longrightarrow> length ys = length xs"
  by (auto simp: wr_def split: if_splits)

lemma tci_loop_length:
  assumes "for_loop 1 n_g (\<lambda>t_id tci. do {
                  p \<leftarrow> rd tci (t_id - 1);
                  wr tci t_id (if p + gs > nfc then nfc else p + gs)
                }) tci0 = Some tci1"
  shows "length tci1 = length tci0"
proof (cases "1 \<le> n_g")
  case True
  show ?thesis
    by (rule for_loop_inv[OF assms True, where P = "\<lambda>i tci. length tci = length tci0"])
       (auto simp: bind_eq_Some_conv wr_def split: if_splits)
next
  case False
  then have "tci1 = tci0" using assms by (simp add: for_loop.simps[of 1 n_g])
  then show ?thesis by simp
qed

lemma multipass_pass_parts:
  assumes "multipass_pass min_size n_thr (g, fls, nfc, w) = Some s'"
  shows "\<exists>n_g tci2 w1 w2 r nfc' lfc'.
      length tci2 = length (t_cell_index w)
    \<and> renum_face_multipass_assign n_thr n_g g fls (w\<lparr>t_cell_index := tci2\<rparr>) = Some w1
    \<and> renum_face_multipass_redistribute n_thr n_g g (1 / 2) fls w1 = Some w2
    \<and> for_loop 0 fls (\<lambda>fl_id r. do {
               f_id \<leftarrow> rd (fst r) fl_id;
               tag \<leftarrow> rd (f_t_id w2) f_id;
               if tag < 0 then do { fl \<leftarrow> wr (fst r) (snd r) f_id; Some (fl, snd r + 1) }
               else Some r
             }) (faces_list w2, 0) = Some r
    \<and> s' = (g + 1, snd r, nfc', w2\<lparr>faces_list := fst r, l_face_cells := lfc'\<rparr>)"
proof -
  from assms obtain gs n_g tci0 tci1 tci2 w1 w2 r where
    t0: "wr (t_cell_index w) 0 0 = Some tci0"
    and t1: "for_loop 1 n_g (\<lambda>t_id tci. do {
                  p \<leftarrow> rd tci (t_id - 1);
                  wr tci t_id (if p + gs > nfc then nfc else p + gs)
                }) tci0 = Some tci1"
    and t2: "wr tci1 n_g nfc = Some tci2"
    and w1: "renum_face_multipass_assign n_thr n_g g fls (w\<lparr>t_cell_index := tci2\<rparr>) = Some w1"
    and w2: "renum_face_multipass_redistribute n_thr n_g g (1 / 2) fls w1 = Some w2"
    and r: "for_loop 0 fls (\<lambda>fl_id r. do {
               f_id \<leftarrow> rd (fst r) fl_id;
               tag \<leftarrow> rd (f_t_id w2) f_id;
               if tag < 0 then do { fl \<leftarrow> wr (fst r) (snd r) f_id; Some (fl, snd r + 1) }
               else Some r
             }) (faces_list w2, 0) = Some r"
    and e: "(if snd r > 0 then do {
          q \<leftarrow> renum_face_multipass_remaining nfc (snd r) (fst r) (l_face_cells w2);
          Some (g + 1, snd r, fst q, w2\<lparr>faces_list := fst r, l_face_cells := snd q\<rparr>)
        } else Some (g + 1, snd r, nfc, w2\<lparr>faces_list := fst r\<rparr>)) = Some s'"
    unfolding multipass_pass_def prod.case bind_eq_Some_conv by blast
  have l: "length tci2 = length (t_cell_index w)"
    using wr_length[OF t0] tci_loop_length[OF t1] wr_length[OF t2] by simp
  have "\<exists>nfc' lfc'. s' = (g + 1, snd r, nfc', w2\<lparr>faces_list := fst r, l_face_cells := lfc'\<rparr>)"
  proof (cases "snd r > 0")
    case True
    with e show ?thesis by (auto simp: bind_eq_Some_conv)
  next
    case False
    with e have "s' = (g + 1, snd r, nfc,
                       w2\<lparr>faces_list := fst r, l_face_cells := l_face_cells w2\<rparr>)"
      by simp
    then show ?thesis by blast
  qed
  with l w1 w2 r show ?thesis by blast
qed

lemma compact_step:
  assumes i: "0 \<le> i" and inv: "compact_inv tags fl0 i r"
    and b: "do {
               f_id \<leftarrow> rd (fst r) i;
               tag \<leftarrow> rd tags f_id;
               if tag < 0 then do { fl \<leftarrow> wr (fst r) (snd r) f_id; Some (fl, snd r + 1) }
               else Some r
             } = Some r'"
  shows "compact_inv tags fl0 (i + 1) r'"
proof -
  obtain fl cnt where r: "r = (fl, cnt)" by (cases r)
  have c: "0 \<le> cnt" "cnt \<le> i" "length fl = length fl0"
    and keep: "\<And>p. nat i \<le> p \<Longrightarrow> fl ! p = fl0 ! p"
    and from_old: "\<And>k. k < nat cnt \<Longrightarrow> \<exists>j<nat i. fl ! k = fl0 ! j"
    and all_neg: "\<And>j. j < nat i \<Longrightarrow> tags ! nat (fl0 ! j) < 0 \<Longrightarrow> \<exists>k<nat cnt. fl ! k = fl0 ! j"
    using inv by (auto simp: compact_inv_def r)
  from b obtain f_id where f: "rd fl i = Some f_id"
    and tag: "rd tags f_id = Some (tags ! nat f_id)"
    and e: "(if tags ! nat f_id < 0 then do { fl' \<leftarrow> wr fl cnt f_id; Some (fl', cnt + 1) }
             else Some (fl, cnt)) = Some r'"
    by (auto simp: r bind_eq_Some_conv rd_def split: if_splits)
  from f i have fid: "f_id = fl0 ! nat i" using keep[of "nat i"]
    by (auto simp: rd_def split: if_splits)
  have Si: "nat (i + 1) = Suc (nat i)" using i by simp
  show ?thesis
  proof (cases "tags ! nat f_id < 0")
    case False
    with e have r': "r' = (fl, cnt)" by simp
    have "\<exists>k<nat cnt. fl ! k = fl0 ! j" if "j < Suc (nat i)" "tags ! nat (fl0 ! j) < 0" for j
    proof (cases "j = nat i")
      case True
      with that(2) False fid show ?thesis by simp
    next
      case False
      with that have "j < nat i" by simp
      then show ?thesis using that(2) by (rule all_neg)
    qed
    moreover have "\<exists>j<Suc (nat i). fl ! k = fl0 ! j" if "k < nat cnt" for k
    proof -
      from from_old[OF that] obtain j where "j < nat i" "fl ! k = fl0 ! j" by blast
      then have "j < Suc (nat i) \<and> fl ! k = fl0 ! j" by simp
      then show ?thesis by blast
    qed
    ultimately show ?thesis
      unfolding compact_inv_def r' Si using c keep by simp
  next
    case True
    with e have w: "wr fl cnt f_id = Some (fl[nat cnt := f_id])" and r': "r' = (fl[nat cnt := f_id], cnt + 1)"
      by (auto simp: bind_eq_Some_conv wr_def split: if_splits)
    from w c have cl: "nat cnt < length fl" by (auto simp: wr_def split: if_splits)
    have Sc: "nat (cnt + 1) = Suc (nat cnt)" using c by simp
    have ci: "nat cnt \<le> nat i" using c by simp
    have k1: "fl[nat cnt := f_id] ! p = fl0 ! p" if "Suc (nat i) \<le> p" for p
      using that ci keep[of p] by simp
    have k2: "\<exists>j<Suc (nat i). fl[nat cnt := f_id] ! k = fl0 ! j" if "k < Suc (nat cnt)" for k
    proof (cases "k = nat cnt")
      case True
      then have "fl[nat cnt := f_id] ! k = fl0 ! nat i" using cl fid by simp
      then show ?thesis by blast
    next
      case False
      with that have "k < nat cnt" by simp
      from from_old[OF this] obtain j where j: "j < nat i" "fl ! k = fl0 ! j" by blast
      have "fl[nat cnt := f_id] ! k = fl0 ! j" using j(2) False by simp
      moreover have "j < Suc (nat i)" using j(1) by simp
      ultimately show ?thesis by blast
    qed
    have k3: "\<exists>k<Suc (nat cnt). fl[nat cnt := f_id] ! k = fl0 ! j"
      if "j < Suc (nat i)" "tags ! nat (fl0 ! j) < 0" for j
    proof (cases "j = nat i")
      case True
      have "fl[nat cnt := f_id] ! nat cnt = fl0 ! j" using cl fid True by simp
      then show ?thesis by blast
    next
      case False
      with that have "j < nat i" by simp
      from all_neg[OF this that(2)] obtain k where k: "k < nat cnt" "fl ! k = fl0 ! j" by blast
      then have "fl[nat cnt := f_id] ! k = fl0 ! j" by simp
      moreover have "k < Suc (nat cnt)" using k(1) by simp
      ultimately show ?thesis by blast
    qed
    show ?thesis
      unfolding compact_inv_def r' Si using c k1 k2 k3 by (simp add: Sc)
  qed
qed

lemma compact_loop:
  assumes "for_loop 0 fls (\<lambda>fl_id r. do {
               f_id \<leftarrow> rd (fst r) fl_id;
               tag \<leftarrow> rd tags f_id;
               if tag < 0 then do { fl \<leftarrow> wr (fst r) (snd r) f_id; Some (fl, snd r + 1) }
               else Some r
             }) (fl0, 0) = Some r"
    and "0 \<le> fls"
  shows "compact_inv tags fl0 fls r"
proof (rule for_loop_inv[OF assms, where P = "compact_inv tags fl0"])
  show "compact_inv tags fl0 0 (fl0, 0)" by (simp add: compact_inv_def)
next
  fix i :: int and s s' :: "int list \<times> int"
  assume "0 \<le> i" "compact_inv tags fl0 i s"
    and "do {
               f_id \<leftarrow> rd (fst s) i;
               tag \<leftarrow> rd tags f_id;
               if tag < 0 then do { fl \<leftarrow> wr (fst s) (snd s) f_id; Some (fl, snd s + 1) }
               else Some s
             } = Some s'"
  then show "compact_inv tags fl0 (i + 1) s'" by (rule compact_step)
qed

lemma multipass_pass_inv:
  assumes inv: "mp_inv n n_thr (g, fls, nfc, w)" and thr: "1 \<le> n_thr"
    and p: "multipass_pass min_size n_thr (g, fls, nfc, w) = Some s'"
  shows "mp_inv n n_thr s' \<and> fst s' = g + 1"
proof -
  have g: "0 \<le> g" and fls: "0 \<le> fls" "fls \<le> int n"
    and len: "length (f_t_id w) = n" "length (faces_list w) = n"
      "length (n_t_faces w) = nat n_thr" "int (length (t_cell_index w)) = n_thr + 1"
    and tags: "\<And>f. f < n \<Longrightarrow> - 1 \<le> f_t_id w ! f \<and> f_t_id w ! f < g * n_thr"
    and valid: "\<And>i. i < nat fls \<Longrightarrow> 0 \<le> faces_list w ! i \<and> faces_list w ! i < int n"
    and untagged: "\<And>f. f < n \<Longrightarrow> f_t_id w ! f = - 1 \<Longrightarrow> \<exists>i<nat fls. faces_list w ! i = int f"
    using inv by (auto simp: mp_inv_def)
  from multipass_pass_parts[OF p] obtain n_g tci2 w1 w2 r nfc' lfc' where
    l2: "length tci2 = length (t_cell_index w)"
    and w1: "renum_face_multipass_assign n_thr n_g g fls (w\<lparr>t_cell_index := tci2\<rparr>) = Some w1"
    and w2: "renum_face_multipass_redistribute n_thr n_g g (1 / 2) fls w1 = Some w2"
    and r: "for_loop 0 fls (\<lambda>fl_id r. do {
               f_id \<leftarrow> rd (fst r) fl_id;
               tag \<leftarrow> rd (f_t_id w2) f_id;
               if tag < 0 then do { fl \<leftarrow> wr (fst r) (snd r) f_id; Some (fl, snd r + 1) }
               else Some r
             }) (faces_list w2, 0) = Some r"
    and s': "s' = (g + 1, snd r, nfc', w2\<lparr>faces_list := fst r, l_face_cells := lfc'\<rparr>)"
    by blast
  let ?w0 = "w\<lparr>t_cell_index := tci2\<rparr>"
  have r0: "mp_step_rel n_thr g fls w ?w0" by (rule mp_step_rel_tci[OF l2])
  have l0: "int (length (t_cell_index ?w0)) = n_thr + 1" using l2 len(4) by simp
  from assign_rel[OF w1 l0] have r1: "mp_step_rel n_thr g fls ?w0 w1" by simp
  then have l1: "int (length (t_cell_index w1)) = n_thr + 1"
    using l0 by (simp add: mp_step_rel_def)
  have r2: "mp_step_rel n_thr g fls w1 w2" by (rule redistribute_rel[OF w2 l1])
  have R: "mp_step_rel n_thr g fls w w2"
    using mp_step_rel_trans[OF mp_step_rel_trans[OF r0 r1] r2] .
  have fl2: "faces_list w2 = faces_list w" and len2: "length (f_t_id w2) = n"
    "length (n_t_faces w2) = nat n_thr" "int (length (t_cell_index w2)) = n_thr + 1"
    using R len by (simp_all add: mp_step_rel_def)
  have tag2: "f_t_id w2 ! f = f_t_id w ! f
       \<or> ((\<exists>i. 0 \<le> i \<and> i < fls \<and> faces_list w ! nat i = int f)
          \<and> (f_t_id w2 ! f = - 1
             \<or> (g * n_thr \<le> f_t_id w2 ! f \<and> f_t_id w2 ! f < g * n_thr + n_thr)))"
    if "f < n" for f
    using R that len(1) unfolding mp_step_rel_def by blast
  have c: "compact_inv (f_t_id w2) (faces_list w) fls r"
    using compact_loop[OF r[unfolded fl2] fls(1)] .
  then have cnt: "0 \<le> snd r" "snd r \<le> fls" "length (fst r) = n"
    and from_old: "\<And>k. k < nat (snd r) \<Longrightarrow> \<exists>j<nat fls. fst r ! k = faces_list w ! j"
    and all_neg: "\<And>j. j < nat fls \<Longrightarrow> f_t_id w2 ! nat (faces_list w ! j) < 0 \<Longrightarrow>
                   \<exists>k<nat (snd r). fst r ! k = faces_list w ! j"
    using len(2) by (auto simp: compact_inv_def)
  have gn: "0 \<le> g * n_thr" using g thr by simp
  have t1: "- 1 \<le> f_t_id w2 ! f \<and> f_t_id w2 ! f < (g + 1) * n_thr" if "f < n" for f
  proof -
    have e: "(g + 1) * n_thr = g * n_thr + n_thr" by (simp add: algebra_simps)
    from tag2[OF that] tags[OF that] gn thr show ?thesis unfolding e by auto
  qed
  have t2: "0 \<le> fst r ! k \<and> fst r ! k < int n" if "k < nat (snd r)" for k
  proof -
    from from_old[OF that] obtain j where "j < nat fls" "fst r ! k = faces_list w ! j" by blast
    with valid[of j] show ?thesis by simp
  qed
  have t3: "\<exists>k<nat (snd r). fst r ! k = int f" if f: "f < n" and u: "f_t_id w2 ! f = - 1" for f
  proof -
    have "\<exists>j<nat fls. faces_list w ! j = int f"
    proof (cases "f_t_id w2 ! f = f_t_id w ! f")
      case True
      with u have "f_t_id w ! f = - 1" by simp
      then show ?thesis by (rule untagged[OF f])
    next
      case False
      with tag2[OF f] obtain i where i: "0 \<le> i" "i < fls" "faces_list w ! nat i = int f" by blast
      then have "nat i < nat fls" by simp
      with i(3) show ?thesis by blast
    qed
    then obtain j where j: "j < nat fls" "faces_list w ! j = int f" by blast
    have "f_t_id w2 ! nat (faces_list w ! j) < 0" using j(2) u by simp
    from all_neg[OF j(1) this] j(2) show ?thesis by simp
  qed
  have "mp_inv n n_thr s'"
    unfolding s' mp_inv_def prod.case
    using g cnt fls len2 t1 t2 t3 by simp
  then show ?thesis by (simp add: s')
qed

lemma multipass_passes_inv:
  assumes "multipass_passes m n_thr s = Some y"
  shows "mp_inv n n_thr s \<and> 1 \<le> n_thr \<and> k \<le> fst s \<longrightarrow>
         (\<forall>s1. y = Some s1 \<longrightarrow> mp_inv n n_thr s1 \<and> k \<le> fst s1)"
proof (rule multipass_passes.raw_induct
         [where P = "\<lambda>m n_thr s y. mp_inv n n_thr s \<and> 1 \<le> n_thr \<and> k \<le> fst s \<longrightarrow>
                        (\<forall>s1. y = Some s1 \<longrightarrow> mp_inv n n_thr s1 \<and> k \<le> fst s1)",
          OF _ assms])
  fix f :: "int \<Rightarrow> int \<Rightarrow> mp_state \<Rightarrow> mp_state option option" and m n_thr s y
  assume IH: "\<And>m n_thr s y. f m n_thr s = Some y \<Longrightarrow>
                 mp_inv n n_thr s \<and> 1 \<le> n_thr \<and> k \<le> fst s \<longrightarrow>
                 (\<forall>s1. y = Some s1 \<longrightarrow> mp_inv n n_thr s1 \<and> k \<le> fst s1)"
    and body: "(if m < fst (snd s)
                then case multipass_pass m n_thr s of None \<Rightarrow> Some None | Some s' \<Rightarrow> f m n_thr s'
                else Some (Some s)) = Some y"
  show "mp_inv n n_thr s \<and> 1 \<le> n_thr \<and> k \<le> fst s \<longrightarrow>
        (\<forall>s1. y = Some s1 \<longrightarrow> mp_inv n n_thr s1 \<and> k \<le> fst s1)"
  proof (intro impI allI)
    fix s1
    assume a: "mp_inv n n_thr s \<and> 1 \<le> n_thr \<and> k \<le> fst s" and y: "y = Some s1"
    show "mp_inv n n_thr s1 \<and> k \<le> fst s1"
    proof (cases "m < fst (snd s)")
      case False
      with body y have "s1 = s" by simp
      with a show ?thesis by simp
    next
      case True
      obtain g fls nfc w where s: "s = (g, fls, nfc, w)" by (cases s)
      from body True y obtain s' where p: "multipass_pass m n_thr s = Some s'"
        and r: "f m n_thr s' = Some (Some s1)"
        by (auto split: option.splits)
      from a have inv: "mp_inv n n_thr (g, fls, nfc, w)" and thr: "1 \<le> n_thr" and kg: "k \<le> g"
        by (simp_all add: s)
      from multipass_pass_inv[OF inv thr p[unfolded s]]
      have "mp_inv n n_thr s'" "fst s' = g + 1" by simp_all
      with IH[OF r] thr kg show ?thesis by simp
    qed
  qed
qed

lemma multipass_init_total:
  assumes "n_i_faces mesh \<le> length (i_face_cells mesh)" "1 \<le> n_thr"
  shows "\<exists>s0. multipass_init mesh n_thr = Some s0 \<and> mp_inv (n_i_faces mesh) n_thr s0
              \<and> fst s0 = 0 \<and> fst (snd s0) = int (n_i_faces mesh)"
proof -
  let ?n = "n_i_faces mesh"
  have "\<exists>lfc. for_loop 0 (int ?n) (\<lambda>f_id lfc. do {
              c \<leftarrow> rd (i_face_cells mesh) f_id;
              wr lfc f_id (if fst c < snd c then (int (fst c), int (snd c))
                           else (int (snd c), int (fst c)))
            }) (replicate ?n (0, 0)) = Some lfc \<and> length lfc = ?n"
  proof (rule for_loop_total[where P = "\<lambda>i lfc. length lfc = ?n"])
    fix i :: int and s :: "(int \<times> int) list"
    assume i: "0 \<le> i" "i < int ?n" and P: "length s = ?n"
    show "\<exists>s'. do {
              c \<leftarrow> rd (i_face_cells mesh) i;
              wr s i (if fst c < snd c then (int (fst c), int (snd c))
                           else (int (snd c), int (fst c)))
            } = Some s' \<and> length s' = ?n"
      using i P assms(1) by (simp add: rd_def wr_def)
  qed simp_all
  then obtain lfc where lfc: "for_loop 0 (int ?n) (\<lambda>f_id lfc. do {
              c \<leftarrow> rd (i_face_cells mesh) f_id;
              wr lfc f_id (if fst c < snd c then (int (fst c), int (snd c))
                           else (int (snd c), int (fst c)))
            }) (replicate ?n (0, 0)) = Some lfc" and l: "length lfc = ?n"
    by blast
  let ?order = "cs_order_lnum_allocated_s lfc"
  have lo: "length ?order = ?n" by (simp add: cs_order_length l)
  have so: "set ?order = {0..<?n}" by (simp add: cs_order_set l)
  have v: "?order ! i < ?n" if "i < ?n" for i
    using that lo so nth_mem[of i ?order] by auto
  have u: "\<exists>i<?n. ?order ! i = f" if "f < ?n" for f
  proof -
    have "f \<in> set ?order" using that so by simp
    then show ?thesis using lo by (auto simp: in_set_conv_nth)
  qed
  have u': "\<exists>i<?n. map int ?order ! i = int f" if "f < ?n" for f
  proof -
    from u[OF that] obtain i where "i < ?n" "?order ! i = f" by blast
    then have "i < ?n \<and> map int ?order ! i = int f" using lo by simp
    then show ?thesis by blast
  qed
  have v': "0 \<le> map int ?order ! i \<and> map int ?order ! i < int ?n" if "i < ?n" for i
    using v[OF that] that lo by simp
  have e: "multipass_init mesh n_thr = Some (0, int ?n, int (n_cells_with_ghosts mesh),
           \<lparr>faces_list = map int ?order, l_face_cells = lfc,
            f_t_id = replicate ?n (- 1), n_t_faces = replicate (nat n_thr) 0,
            t_face_last = replicate (nat n_thr) 0,
            t_cell_index = replicate (nat (n_thr + 1)) 0\<rparr>)"
    by (simp add: multipass_init_def Let_def lfc)
  have "mp_inv ?n n_thr (0, int ?n, int (n_cells_with_ghosts mesh),
           \<lparr>faces_list = map int ?order, l_face_cells = lfc,
            f_t_id = replicate ?n (- 1), n_t_faces = replicate (nat n_thr) 0,
            t_face_last = replicate (nat n_thr) 0,
            t_cell_index = replicate (nat (n_thr + 1)) 0\<rparr>)"
    unfolding mp_inv_def prod.case using assms(2) lo v' u' by simp
  with e show ?thesis by simp
qed

text \<open>
  After the loop on the passes the last group takes the faces that are left, so that
  every face has a tag of one of the groups, and the final numbering and the group index
  are built with every access inside of its array.
\<close>

lemma wr_loop_total:
  assumes "a \<le> b" "0 \<le> a" "b \<le> int (length xs)"
  shows "\<exists>r. for_loop a b (\<lambda>t_id ntf. wr ntf t_id v) xs = Some r \<and> length r = length xs"
proof (rule for_loop_total[where P = "\<lambda>i r. length r = length xs"])
  fix i :: int and s :: "'a list"
  assume "a \<le> i" "i < b" "length s = length xs"
  then show "\<exists>s'. wr s i v = Some s' \<and> length s' = length xs"
    using assms by (simp add: wr_def)
qed (use assms in simp_all)

lemma multipass_last_group_total:
  assumes inv: "mp_inv n n_thr (g, fls, nfc, w)" and thr: "1 \<le> n_thr"
  shows "\<exists>ng w'. multipass_last_group n_thr (g, fls, nfc, w) = Some (ng, w')
           \<and> g \<le> ng \<and> length (f_t_id w') = n
           \<and> (\<forall>f<n. 0 \<le> f_t_id w' ! f \<and> f_t_id w' ! f < ng * n_thr)"
proof -
  have g: "0 \<le> g" and fls: "0 \<le> fls" "fls \<le> int n"
    and len: "length (f_t_id w) = n" "length (faces_list w) = n"
      "length (n_t_faces w) = nat n_thr"
    and tags: "\<And>f. f < n \<Longrightarrow> - 1 \<le> f_t_id w ! f \<and> f_t_id w ! f < g * n_thr"
    and valid: "\<And>i. i < nat fls \<Longrightarrow> 0 \<le> faces_list w ! i \<and> faces_list w ! i < int n"
    and untagged: "\<And>f. f < n \<Longrightarrow> f_t_id w ! f = - 1 \<Longrightarrow> \<exists>i<nat fls. faces_list w ! i = int f"
    using inv by (auto simp: mp_inv_def)
  have gn: "0 \<le> g * n_thr" using g thr by simp
  have e1: "(g + 1) * n_thr = g * n_thr + n_thr" by (simp add: algebra_simps)
  show ?thesis
  proof (cases "fls > 0")
    case False
    with fls have f0: "nat fls = 0" by simp
    have "0 \<le> f_t_id w ! f \<and> f_t_id w ! f < g * n_thr" if "f < n" for f
    proof -
      have "f_t_id w ! f \<noteq> - 1" using untagged[OF that] f0 by auto
      with tags[OF that] show ?thesis by simp
    qed
    then show ?thesis using False len by (simp add: multipass_last_group_def)
  next
    case True
    let ?P = "\<lambda>i fti. length fti = n
                \<and> (\<forall>f<n. fti ! f = f_t_id w ! f \<or> fti ! f = g * n_thr)
                \<and> (\<forall>j<nat i. fti ! nat (faces_list w ! j) = g * n_thr)"
    have "\<exists>fti. for_loop 0 fls (\<lambda>fl_id fti. do {
                   f_id \<leftarrow> rd (faces_list w) fl_id;
                   wr fti f_id (g * n_thr)
                 }) (f_t_id w) = Some fti \<and> ?P fls fti"
    proof (rule for_loop_total[where P = ?P])
      show "0 \<le> fls" by (rule fls(1))
      show "?P 0 (f_t_id w)" using len by simp
    next
      fix i :: int and fti :: "int list"
      assume i: "0 \<le> i" "i < fls" and P: "?P i fti"
      have il: "nat i < nat fls" using i by simp
      from valid[OF il] have vf: "0 \<le> faces_list w ! nat i" "faces_list w ! nat i < int n"
        by simp_all
      have r: "rd (faces_list w) i = Some (faces_list w ! nat i)"
        using i fls len by (simp add: rd_def)
      have wv: "wr fti (faces_list w ! nat i) (g * n_thr)
                = Some (fti[nat (faces_list w ! nat i) := g * n_thr])"
        using vf P by (simp add: wr_def)
      have fl: "nat (faces_list w ! nat i) < length fti" using vf P by simp
      have Si: "nat (i + 1) = Suc (nat i)" using i by simp
      have "?P (i + 1) (fti[nat (faces_list w ! nat i) := g * n_thr])"
        unfolding Si using P fl by (auto simp: nth_list_update less_Suc_eq)
      then show "\<exists>s'. do { f_id \<leftarrow> rd (faces_list w) i; wr fti f_id (g * n_thr) } = Some s'
                     \<and> ?P (i + 1) s'"
        using r wv by simp
    qed
    then obtain fti where fti: "for_loop 0 fls (\<lambda>fl_id fti. do {
                   f_id \<leftarrow> rd (faces_list w) fl_id;
                   wr fti f_id (g * n_thr)
                 }) (f_t_id w) = Some fti"
      and lf: "length fti = n"
      and same: "\<And>f. f < n \<Longrightarrow> fti ! f = f_t_id w ! f \<or> fti ! f = g * n_thr"
      and set: "\<And>j. j < nat fls \<Longrightarrow> fti ! nat (faces_list w ! j) = g * n_thr"
      by blast
    have w0: "wr (n_t_faces w) 0 fls = Some ((n_t_faces w)[0 := fls])"
      using len thr by (simp add: wr_def)
    have "\<exists>ntf. for_loop 1 n_thr (\<lambda>t_id ntf. wr ntf t_id 0) ((n_t_faces w)[0 := fls]) = Some ntf
                \<and> length ntf = length ((n_t_faces w)[0 := fls])"
      using thr len by (intro wr_loop_total) simp_all
    then obtain ntf where ntf:
      "for_loop 1 n_thr (\<lambda>t_id ntf. wr ntf t_id 0) ((n_t_faces w)[0 := fls]) = Some ntf"
      by blast
    have e: "multipass_last_group n_thr (g, fls, nfc, w)
             = Some (g + 1, w\<lparr>f_t_id := fti, n_t_faces := ntf\<rparr>)"
      using True by (simp add: multipass_last_group_def fti w0 ntf)
    have "0 \<le> fti ! f \<and> fti ! f < (g + 1) * n_thr" if f: "f < n" for f
    proof (cases "fti ! f = g * n_thr")
      case True
      then show ?thesis unfolding e1 using gn thr by simp
    next
      case False
      with same[OF f] have eq: "fti ! f = f_t_id w ! f" by simp
      have "f_t_id w ! f \<noteq> - 1"
      proof
        assume "f_t_id w ! f = - 1"
        from untagged[OF f this] obtain j where j: "j < nat fls" "faces_list w ! j = int f"
          by blast
        from set[OF j(1)] j(2) have "fti ! f = g * n_thr" by simp
        with False show False by simp
      qed
      with tags[OF f] eq show ?thesis unfolding e1 using thr by simp
    qed
    then show ?thesis unfolding e using lf by simp
  qed
qed

lemma group_index_bound:
  fixes t g ng n_thr :: int
  assumes "0 \<le> t" "t < n_thr" "0 \<le> g" "g < ng"
  shows "0 \<le> (t * ng + g) * 2 \<and> (t * ng + g) * 2 + 1 < ng * n_thr * 2"
proof -
  have ng: "0 \<le> ng" using assms by simp
  have "t * ng \<le> (n_thr - 1) * ng" using assms ng by (intro mult_right_mono) simp_all
  then have "t * ng + g < n_thr * ng" using assms by (simp add: algebra_simps)
  moreover have "0 \<le> t * ng" using assms ng by simp
  ultimately show ?thesis using assms by (simp add: algebra_simps)
qed

lemma nested_loop_total:
  assumes P: "P s"
    and step: "\<And>g t s. 0 \<le> g \<Longrightarrow> g < ng \<Longrightarrow> 0 \<le> t \<Longrightarrow> t < n_thr \<Longrightarrow> P s \<Longrightarrow>
                 \<exists>s'. body g t s = Some s' \<and> P s'"
    and n: "0 \<le> ng" "0 \<le> n_thr"
  shows "\<exists>r. for_loop 0 ng (\<lambda>g. for_loop 0 n_thr (body g)) s = Some r \<and> P r"
proof (rule for_loop_total[where P = "\<lambda>i s. P s"])
  fix g :: int and s
  assume g: "0 \<le> g" "g < ng" and Ps: "P s"
  show "\<exists>s'. for_loop 0 n_thr (body g) s = Some s' \<and> P s'"
  proof (rule for_loop_total[where P = "\<lambda>i s. P s"])
    fix t :: int and s
    assume "0 \<le> t" "t < n_thr" "P s"
    then show "\<exists>s'. body g t s = Some s' \<and> P s'" using step g by blast
  qed (use n Ps in simp_all)
qed (use n P in simp_all)

lemma sdiv_nonneg: "0 \<le> a \<Longrightarrow> 0 < b \<Longrightarrow> (a :: int) sdiv b = a div b"
  by (cases "a = 0") (simp_all add: signed_divide_int_def sgn_if)

lemma smod_nonneg: "0 \<le> a \<Longrightarrow> 0 < b \<Longrightarrow> (a :: int) smod b = a mod b"
  by (cases "a = 0") (simp_all add: signed_modulo_int_def sgn_if)

lemma tag_thread_group:
  fixes tag n_thr ng :: int
  assumes "0 \<le> tag" "tag < ng * n_thr" "1 \<le> n_thr"
  shows "c_mod tag n_thr = Some (tag mod n_thr)"
    and "c_div (tag - tag mod n_thr) n_thr = Some (tag div n_thr)"
    and "0 \<le> tag mod n_thr" "tag mod n_thr < n_thr" "0 \<le> tag div n_thr" "tag div n_thr < ng"
proof -
  have pos: "0 < n_thr" using assms by simp
  show "c_mod tag n_thr = Some (tag mod n_thr)"
    using assms pos by (simp add: c_mod_def smod_nonneg)
  have d: "0 \<le> tag - tag mod n_thr"
    using assms pos by (simp add: zmod_le_nonneg_dividend)
  have "(tag - tag mod n_thr) div n_thr = tag div n_thr"
    using pos by (simp add: minus_mod_eq_mult_div)
  then show "c_div (tag - tag mod n_thr) n_thr = Some (tag div n_thr)"
    using sdiv_nonneg[OF d pos] pos by (simp add: c_div_def)
  show "0 \<le> tag mod n_thr" "tag mod n_thr < n_thr" using pos by simp_all
  show "0 \<le> tag div n_thr" using assms pos by (simp add: pos_imp_zdiv_nonneg_iff)
  show "tag div n_thr < ng"
  proof (rule ccontr)
    assume n: "\<not> tag div n_thr < ng"
    define q where "q = tag div n_thr"
    define r where "r = tag mod n_thr"
    have e: "tag = q * n_thr + r" by (simp add: q_def r_def)
    have r0: "0 \<le> r" using pos by (simp add: r_def)
    have "ng * n_thr \<le> q * n_thr"
      using n pos unfolding q_def by (intro mult_right_mono) simp_all
    with e r0 have "ng * n_thr \<le> tag" by linarith
    with assms(2) show False by simp
  qed
qed

lemma multipass_index_total:
  assumes n: "length (f_t_id w) = n_i_faces mesh"
    and tags: "\<forall>f<n_i_faces mesh. 0 \<le> f_t_id w ! f \<and> f_t_id w ! f < ng * n_thr"
    and ng: "1 \<le> ng" and thr: "1 \<le> n_thr"
    and ifc: "n_i_faces mesh \<le> length (i_face_cells mesh)"
    and n2o: "n_i_faces mesh \<le> length new_to_old_i"
  shows "\<exists>r. multipass_index mesh n_thr new_to_old_i (ng, w) = Some r"
proof -
  define m where "m = n_i_faces mesh"
  define L where "L = nat (ng * n_thr * 2)"
  have L: "int L = ng * n_thr * 2" "0 < L" using ng thr by (simp_all add: L_def)
  have ng0: "0 \<le> ng" and thr0: "0 \<le> n_thr" using ng thr by simp_all
  have ib: "0 \<le> (t * ng + g) * 2 \<and> (t * ng + g) * 2 < int L
            \<and> 0 \<le> (t * ng + g) * 2 + 1 \<and> (t * ng + g) * 2 + 1 < int L"
    if "0 \<le> g" "g < ng" "0 \<le> t" "t < n_thr" for g t
    using group_index_bound[OF that(3,4,1,2)] unfolding L(1) by simp
  have "\<exists>keys. for_loop 0 (int m) (\<lambda>f_id keys. do {
                     tag \<leftarrow> rd (f_t_id w) f_id;
                     c \<leftarrow> rd (i_face_cells mesh) f_id;
                     Some (keys @ [if fst c < snd c then (tag, int (fst c) - 1, int (snd c) - 1)
                                   else (tag, int (snd c) - 1, int (fst c) - 1)])
                   }) [] = Some keys \<and> length keys = nat (int m)"
  proof (rule for_loop_total[where P = "\<lambda>i keys. length keys = nat i"])
    fix i :: int and s :: "(int \<times> int \<times> int) list"
    assume i: "0 \<le> i" "i < int m" and P: "length s = nat i"
    show "\<exists>s'. do {
                     tag \<leftarrow> rd (f_t_id w) i;
                     c \<leftarrow> rd (i_face_cells mesh) i;
                     Some (s @ [if fst c < snd c then (tag, int (fst c) - 1, int (snd c) - 1)
                                   else (tag, int (snd c) - 1, int (fst c) - 1)])
                   } = Some s' \<and> length s' = nat (i + 1)"
      using i P n ifc by (simp add: rd_def m_def nat_add_distrib)
  qed simp_all
  then obtain keys where keys: "for_loop 0 (int m) (\<lambda>f_id keys. do {
                     tag \<leftarrow> rd (f_t_id w) f_id;
                     c \<leftarrow> rd (i_face_cells mesh) f_id;
                     Some (keys @ [if fst c < snd c then (tag, int (fst c) - 1, int (snd c) - 1)
                                   else (tag, int (snd c) - 1, int (fst c) - 1)])
                   }) [] = Some keys" and lk: "length keys = m"
    by auto
  define order where "order = cs_order_lnum_allocated_s keys"
  have lo: "length order = m" by (simp add: order_def cs_order_length lk)
  have vo: "order ! i < m" if "i < m" for i
    using that lo cs_order_set[of keys] nth_mem[of i order] by (auto simp: order_def lk)
  have gi0: "wr (replicate L (0 :: int)) 0 0 = Some ((replicate L 0)[0 := 0])"
    using L(2) by (simp add: wr_def)
  have "\<exists>gi1. for_loop 0 ng (\<lambda>g_id. for_loop 0 n_thr (\<lambda>t_id gi. do {
               gi' \<leftarrow> wr gi ((t_id * ng + g_id) * 2) (- 1);
               wr gi' ((t_id * ng + g_id) * 2 + 1) (- 1)
             })) ((replicate L (0 :: int))[0 := 0]) = Some gi1 \<and> length gi1 = L"
  proof (rule nested_loop_total[where P = "\<lambda>gi. length gi = L"])
    fix g t :: int and s :: "int list"
    assume "0 \<le> g" "g < ng" "0 \<le> t" "t < n_thr" and P: "length s = L"
    from ib[OF this(1-4)] P
    show "\<exists>s'. do {
               gi' \<leftarrow> wr s ((t * ng + g) * 2) (- 1);
               wr gi' ((t * ng + g) * 2 + 1) (- 1)
             } = Some s' \<and> length s' = L"
      by (simp add: wr_def)
  qed (use ng0 thr0 in simp_all)
  then obtain gi1 where gi1: "for_loop 0 ng (\<lambda>g_id. for_loop 0 n_thr (\<lambda>t_id gi. do {
               gi' \<leftarrow> wr gi ((t_id * ng + g_id) * 2) (- 1);
               wr gi' ((t_id * ng + g_id) * 2 + 1) (- 1)
             })) ((replicate L (0 :: int))[0 := 0]) = Some gi1" and l1: "length gi1 = L"
    by blast
  let ?Q = "\<lambda>(i :: int) (r :: nat list \<times> int list).
              length (fst r) = length new_to_old_i \<and> length (snd r) = L"
  have "\<exists>r. for_loop 0 (int m) (\<lambda>fl_id r. do {
            f_id \<leftarrow> rd (map int order) fl_id;
            n2o \<leftarrow> wr (fst r) fl_id (nat f_id);
            tag \<leftarrow> rd (f_t_id w) f_id;
            t_id \<leftarrow> c_mod tag n_thr;
            g_id \<leftarrow> c_div (tag - t_id) n_thr;
            gi \<leftarrow> wr (snd r) ((t_id * ng + g_id) * 2 + 1) (fl_id + 1);
            Some (n2o, gi)
          }) (new_to_old_i, gi1) = Some r \<and> ?Q (int m) r"
  proof (rule for_loop_total[where P = ?Q])
    fix i :: int and s :: "nat list \<times> int list"
    assume i: "0 \<le> i" "i < int m" and P: "?Q i s"
    have im: "nat i < m" using i by simp
    define f where "f = order ! nat i"
    have fm: "f < m" unfolding f_def by (rule vo[OF im])
    define tag where "tag = f_t_id w ! f"
    have tg: "0 \<le> tag" "tag < ng * n_thr" using tags fm by (simp_all add: tag_def m_def)
    note tt = tag_thread_group[OF tg thr]
    have r1: "rd (map int order) i = Some (int f)"
      using i lo im by (simp add: rd_def f_def)
    have w1: "wr (fst s) i (nat (int f)) = Some ((fst s)[nat i := f])"
      using i P n2o by (simp add: wr_def m_def)
    have r2: "rd (f_t_id w) (int f) = Some tag"
      using fm n by (simp add: rd_def tag_def m_def)
    from ib[OF tt(5,6,3,4)] P
    have w2: "wr (snd s) ((tag mod n_thr * ng + tag div n_thr) * 2 + 1) (i + 1)
              = Some ((snd s)[nat ((tag mod n_thr * ng + tag div n_thr) * 2 + 1) := i + 1])"
      by (simp add: wr_def)
    have e: "do {
            f_id \<leftarrow> rd (map int order) i;
            n2o \<leftarrow> wr (fst s) i (nat f_id);
            tag \<leftarrow> rd (f_t_id w) f_id;
            t_id \<leftarrow> c_mod tag n_thr;
            g_id \<leftarrow> c_div (tag - t_id) n_thr;
            gi \<leftarrow> wr (snd s) ((t_id * ng + g_id) * 2 + 1) (i + 1);
            Some (n2o, gi)
          } = Some ((fst s)[nat i := f],
                    (snd s)[nat ((tag mod n_thr * ng + tag div n_thr) * 2 + 1) := i + 1])"
      by (simp only: r1 w1 r2 tt(1) tt(2) w2 Option.bind.simps)
    show "\<exists>s'. do {
            f_id \<leftarrow> rd (map int order) i;
            n2o \<leftarrow> wr (fst s) i (nat f_id);
            tag \<leftarrow> rd (f_t_id w) f_id;
            t_id \<leftarrow> c_mod tag n_thr;
            g_id \<leftarrow> c_div (tag - t_id) n_thr;
            gi \<leftarrow> wr (snd s) ((t_id * ng + g_id) * 2 + 1) (i + 1);
            Some (n2o, gi)
          } = Some s' \<and> ?Q (i + 1) s'"
      unfolding e using P by simp
  qed (use l1 in simp_all)
  then obtain r where r: "for_loop 0 (int m) (\<lambda>fl_id r. do {
            f_id \<leftarrow> rd (map int order) fl_id;
            n2o \<leftarrow> wr (fst r) fl_id (nat f_id);
            tag \<leftarrow> rd (f_t_id w) f_id;
            t_id \<leftarrow> c_mod tag n_thr;
            g_id \<leftarrow> c_div (tag - t_id) n_thr;
            gi \<leftarrow> wr (snd r) ((t_id * ng + g_id) * 2 + 1) (fl_id + 1);
            Some (n2o, gi)
          }) (new_to_old_i, gi1) = Some r" and lr: "length (snd r) = L"
    by blast
  have "\<exists>q. for_loop 0 ng (\<lambda>g_id. for_loop 0 n_thr (\<lambda>t_id q. do {
            gi \<leftarrow> wr (snd q) ((t_id * ng + g_id) * 2) (fst q);
            e \<leftarrow> rd gi ((t_id * ng + g_id) * 2 + 1);
            Some (max e (fst q), gi)
          })) (0, snd r) = Some q \<and> length (snd q) = L"
  proof (rule nested_loop_total[where P = "\<lambda>q. length (snd q) = L"])
    fix g t :: int and s :: "int \<times> int list"
    assume "0 \<le> g" "g < ng" "0 \<le> t" "t < n_thr" and P: "length (snd s) = L"
    from ib[OF this(1-4)] P
    show "\<exists>s'. do {
            gi \<leftarrow> wr (snd s) ((t * ng + g) * 2) (fst s);
            e \<leftarrow> rd gi ((t * ng + g) * 2 + 1);
            Some (max e (fst s), gi)
          } = Some s' \<and> length (snd s') = L"
      by (simp add: wr_def rd_def)
  qed (use ng0 thr0 lr in simp_all)
  then obtain q where q: "for_loop 0 ng (\<lambda>g_id. for_loop 0 n_thr (\<lambda>t_id q. do {
            gi \<leftarrow> wr (snd q) ((t_id * ng + g_id) * 2) (fst q);
            e \<leftarrow> rd gi ((t_id * ng + g_id) * 2 + 1);
            Some (max e (fst q), gi)
          })) (0, snd r) = Some q" and lq: "length (snd q) = L"
    by blast
  have "\<exists>gi3. for_loop 0 ng (\<lambda>g_id. for_loop 0 n_thr (\<lambda>t_id gi. do {
               e \<leftarrow> rd gi ((t_id * ng + g_id) * 2 + 1);
               if e < 0 then wr gi ((t_id * ng + g_id) * 2) (- 1) else Some gi
             })) (snd q) = Some gi3 \<and> length gi3 = L"
  proof (rule nested_loop_total[where P = "\<lambda>gi. length gi = L"])
    fix g t :: int and s :: "int list"
    assume "0 \<le> g" "g < ng" "0 \<le> t" "t < n_thr" and P: "length s = L"
    from ib[OF this(1-4)] P
    show "\<exists>s'. do {
               e \<leftarrow> rd s ((t * ng + g) * 2 + 1);
               if e < 0 then wr s ((t * ng + g) * 2) (- 1) else Some s
             } = Some s' \<and> length s' = L"
      by (simp add: wr_def rd_def)
  qed (use ng0 thr0 lq in simp_all)
  then obtain gi3 where gi3: "for_loop 0 ng (\<lambda>g_id. for_loop 0 n_thr (\<lambda>t_id gi. do {
               e \<leftarrow> rd gi ((t_id * ng + g_id) * 2 + 1);
               if e < 0 then wr gi ((t_id * ng + g_id) * 2) (- 1) else Some gi
             })) (snd q) = Some gi3"
    by blast
  have "multipass_index mesh n_thr new_to_old_i (ng, w) = Some (fst r, ng, gi3)"
    by (simp only: multipass_index_def prod.case Let_def m_def[symmetric] keys
        order_def[symmetric] L_def[symmetric] gi0 gi1 r q gi3 Option.bind.simps)
  then show ?thesis by blast
qed

lemma renum_face_multipass_produces:
  assumes thr: "1 \<le> n_i_threads"
    and ifc: "n_i_faces mesh \<le> length (i_face_cells mesh)"
    and n2o: "n_i_faces mesh \<le> length new_to_old_i"
    and more: "min_i_subset_size cfg < int (n_i_faces mesh)"
    and init: "multipass_init mesh n_i_threads = Some s0"
    and loop: "multipass_passes (min_i_subset_size cfg) n_i_threads s0 = Some (Some s1)"
  shows "\<exists>n2o ng gi.
           renum_face_multipass cfg mesh n_i_threads new_to_old_i n_grps grp_index
             = Some (Some (0, n2o, ng, Some gi))
           \<and> distinct (take (n_i_faces mesh) n2o)
           \<and> set (take (n_i_faces mesh) n2o) = {0..<n_i_faces mesh}"
proof -
  let ?n = "n_i_faces mesh"
  from multipass_init_total[OF ifc thr] init
  have inv0: "mp_inv ?n n_i_threads s0" and g0: "fst s0 = 0" and f0: "fst (snd s0) = int ?n"
    by simp_all
  obtain g fls nfc w where s0: "s0 = (g, fls, nfc, w)" by (cases s0)
  have step: "multipass_passes (min_i_subset_size cfg) n_i_threads s0
              = (case multipass_pass (min_i_subset_size cfg) n_i_threads s0 of
                   None \<Rightarrow> Some None
                 | Some s' \<Rightarrow> multipass_passes (min_i_subset_size cfg) n_i_threads s')"
    using more f0 by (subst multipass_passes.simps) simp
  from loop[unfolded step] obtain s' where
    p: "multipass_pass (min_i_subset_size cfg) n_i_threads s0 = Some s'"
    and rest: "multipass_passes (min_i_subset_size cfg) n_i_threads s' = Some (Some s1)"
    by (auto split: option.splits)
  from multipass_pass_inv[OF inv0[unfolded s0] thr p[unfolded s0]] g0
  have inv': "mp_inv ?n n_i_threads s'" and g': "1 \<le> fst s'"
    by (simp_all add: s0)
  from multipass_passes_inv[OF rest, of ?n 1] inv' thr g'
  have inv1: "mp_inv ?n n_i_threads s1" and g1: "1 \<le> fst s1" by simp_all
  obtain g1' fls1 nfc1 w1 where s1: "s1 = (g1', fls1, nfc1, w1)" by (cases s1)
  from multipass_last_group_total[OF inv1[unfolded s1] thr]
  obtain ng w2 where lg: "multipass_last_group n_i_threads s1 = Some (ng, w2)"
    and ng: "g1' \<le> ng" and l2: "length (f_t_id w2) = ?n"
    and tags: "\<forall>f<?n. 0 \<le> f_t_id w2 ! f \<and> f_t_id w2 ! f < ng * n_i_threads"
    unfolding s1 by blast
  have ng1: "1 \<le> ng" using ng g1 by (simp add: s1)
  from multipass_index_total[OF l2 tags ng1 thr ifc n2o]
  obtain r where r: "multipass_index mesh n_i_threads new_to_old_i (ng, w2) = Some r" by blast
  have e: "renum_face_multipass cfg mesh n_i_threads new_to_old_i n_grps grp_index
           = Some (Some (0, fst r, fst (snd r), Some (snd (snd r))))"
    using more by (simp add: renum_face_multipass_def init loop lg r)
  from renum_face_multipass_new_to_old[OF e] e show ?thesis by blast
qed

text \<open>The multipass algorithm on the row of thirteen cells.\<close>

lemma chain_init: "multipass_init chain_mesh 4 = Some chain_state0"
  by code_simp

lemma chain_passes: "multipass_passes 3 4 chain_state0 = Some (Some chain_state1)"
  by code_simp

lemma chain_multipass:
  "renum_face_multipass (multipass_config 4 3) chain_mesh 4 [0..<12] 1 None
   = Some (Some (0, [0, 1, 3, 4, 6, 7, 9, 10, 11, 2, 5, 8], 2,
                 Some [0, 2, 9, 12, 2, 4, - 1, - 1, 4, 6, - 1, - 1, 6, 9, - 1, - 1]))"
  by code_simp

text \<open>
  C7. The claim: for every mesh, each new to old numbering that the renumbering
  algorithms produce (interior faces from \<^verbatim>\<open>_independent_face_groups\<close> or
  \<^verbatim>\<open>_renum_face_multipass\<close>, boundary faces from the boundary partitioner) is a bijection
  on \<open>[0, n)\<close>: every old index occurs exactly once among its first \<open>n\<close> entries.

  Proved: \<^verbatim>\<open>_independent_face_groups\<close> returns for a well-formed connectivity, and its
  numbering has distinct entries that are exactly the indices below \<open>n\<close>. For at least
  one thread and more faces than the minimum subset size, whenever the loop on the
  passes of \<^verbatim>\<open>_renum_face_multipass\<close> returns, the function returns with status 0 a
  numbering whose first \<open>n\<close> entries are distinct and exactly the indices below \<open>n\<close>;
  and whatever it returns with status 0 has this property. The numbering of the
  boundary partitioner always has it.
\<close>

theorem new_to_old_bijection:
  "(1 \<le> max_group_size \<and> cells_ok n_cells_ext n_faces face_cell
      \<and> length new_to_old = n_faces \<longrightarrow>
      (\<exists>n2o n_grps sizes.
          independent_face_groups max_group_size n_cells_ext n_faces face_cell new_to_old
            = Some (n2o, n_grps, sizes)
          \<and> distinct n2o \<and> set n2o = {0..<n_faces}))
   \<and> (1 \<le> n_i_threads \<and> n_i_faces mesh_i \<le> length (i_face_cells mesh_i)
        \<and> n_i_faces mesh_i \<le> length new_to_old_i
        \<and> min_i_subset_size cfg < int (n_i_faces mesh_i)
        \<and> multipass_init mesh_i n_i_threads = Some s0
        \<and> multipass_passes (min_i_subset_size cfg) n_i_threads s0 = Some (Some s1) \<longrightarrow>
       (\<exists>n2o ng gi.
          renum_face_multipass cfg mesh_i n_i_threads new_to_old_i n_grps0 grp_index0
            = Some (Some (0, n2o, ng, Some gi))
          \<and> distinct (take (n_i_faces mesh_i) n2o)
          \<and> set (take (n_i_faces mesh_i) n2o) = {0..<n_i_faces mesh_i}))
   \<and> (renum_face_multipass cfg mesh_i n_i_threads new_to_old_i n_grps0 grp_index0
         = Some (Some (0, n2o_i, n_grps_i, grp_index_i)) \<longrightarrow>
       distinct (take (n_i_faces mesh_i) n2o_i)
       \<and> set (take (n_i_faces mesh_i) n2o_i) = {0..<n_i_faces mesh_i})
   \<and> distinct (take (n_b_faces mesh_b)
        (fst (snd (renum_b_faces_no_share_cell_across_thread mesh_b n_b_threads min_size
                     new_to_old_b))))
   \<and> set (take (n_b_faces mesh_b)
        (fst (snd (renum_b_faces_no_share_cell_across_thread mesh_b n_b_threads min_size
                     new_to_old_b))))
     = {0..<n_b_faces mesh_b}"
proof (intro conjI impI)
  assume "1 \<le> max_group_size \<and> cells_ok n_cells_ext n_faces face_cell
          \<and> length new_to_old = n_faces"
  then show "\<exists>n2o n_grps sizes.
          independent_face_groups max_group_size n_cells_ext n_faces face_cell new_to_old
            = Some (n2o, n_grps, sizes)
          \<and> distinct n2o \<and> set n2o = {0..<n_faces}"
    using independent_face_groups_groups[of n_cells_ext n_faces face_cell max_group_size
        new_to_old]
    by blast
next
  assume "1 \<le> n_i_threads \<and> n_i_faces mesh_i \<le> length (i_face_cells mesh_i)
        \<and> n_i_faces mesh_i \<le> length new_to_old_i
        \<and> min_i_subset_size cfg < int (n_i_faces mesh_i)
        \<and> multipass_init mesh_i n_i_threads = Some s0
        \<and> multipass_passes (min_i_subset_size cfg) n_i_threads s0 = Some (Some s1)"
  then show "\<exists>n2o ng gi.
          renum_face_multipass cfg mesh_i n_i_threads new_to_old_i n_grps0 grp_index0
            = Some (Some (0, n2o, ng, Some gi))
          \<and> distinct (take (n_i_faces mesh_i) n2o)
          \<and> set (take (n_i_faces mesh_i) n2o) = {0..<n_i_faces mesh_i}"
    using renum_face_multipass_produces[of n_i_threads mesh_i new_to_old_i cfg s0 s1
        n_grps0 grp_index0]
    by blast
next
  assume "renum_face_multipass cfg mesh_i n_i_threads new_to_old_i n_grps0 grp_index0
          = Some (Some (0, n2o_i, n_grps_i, grp_index_i))"
  from renum_face_multipass_new_to_old[OF this]
  show "distinct (take (n_i_faces mesh_i) n2o_i)"
    and "set (take (n_i_faces mesh_i) n2o_i) = {0..<n_i_faces mesh_i}"
    by simp_all
next
  show "distinct (take (n_b_faces mesh_b)
        (fst (snd (renum_b_faces_no_share_cell_across_thread mesh_b n_b_threads min_size
                     new_to_old_b))))"
    and "set (take (n_b_faces mesh_b)
        (fst (snd (renum_b_faces_no_share_cell_across_thread mesh_b n_b_threads min_size
                     new_to_old_b))))
     = {0..<n_b_faces mesh_b}"
    using b_new_to_old_bijection[of mesh_b new_to_old_b] by (simp_all add: b_result)
qed

theorem new_to_old_bijection_witness:
  "independent_face_groups 2 4 3 path_faces [0, 1, 2] = Some ([0, 2, 1], 2, [2, 1])
   \<and> distinct [0, 2, 1 :: nat] \<and> set [0, 2, 1] = {0..<3 :: nat}
   \<and> multipass_init chain_mesh 4 = Some chain_state0
   \<and> multipass_passes 3 4 chain_state0 = Some (Some chain_state1)
   \<and> (\<exists>n2o ng gi.
         renum_face_multipass (multipass_config 4 3) chain_mesh 4 [0..<12] 1 None
           = Some (Some (0, n2o, ng, Some gi))
         \<and> n2o = [0, 1, 3, 4, 6, 7, 9, 10, 11, 2, 5, 8]
         \<and> distinct (take 12 n2o) \<and> set (take 12 n2o) = {0..<12})
   \<and> renum_face_multipass (multipass_config 4 1) conflict_mesh 4
        [0..<n_i_faces conflict_mesh] 1 None
      = Some (Some (0, [8, 4, 2, 3, 6, 1, 0, 5, 9, 7], 4, Some (group_index conflict_numbering)))
   \<and> distinct (take 10 [8, 4, 2, 3, 6, 1, 0, 5, 9, 7 :: nat])
   \<and> set (take 10 [8, 4, 2, 3, 6, 1, 0, 5, 9, 7]) = {0..<10 :: nat}
   \<and> fst (snd (renum_b_faces_no_share_cell_across_thread ten_b_faces_mesh 3 4
                  (replicate 10 0)))
      = [1, 2, 3, 0, 4, 5, 6, 7, 8, 9]
   \<and> distinct (take 10 [1, 2, 3, 0, 4, 5, 6, 7, 8, 9 :: nat])
   \<and> set (take 10 [1, 2, 3, 0, 4, 5, 6, 7, 8, 9]) = {0..<10 :: nat}"
proof -
  have ni: "n_i_faces conflict_mesh = 10"
    by (simp add: conflict_mesh_def mesh_of_faces_def)
  have nb: "n_b_faces ten_b_faces_mesh = 10"
    by (simp add: ten_b_faces_mesh_def mesh_of_faces_def)
  have nc: "n_i_faces chain_mesh = 12" "length (i_face_cells chain_mesh) = 12"
    "min_i_subset_size (multipass_config 4 3) = 3"
    by (simp_all add: chain_mesh_def mesh_of_faces_def multipass_config_def)
  note w = new_to_old_bijection[of 2 4 3 path_faces "[0, 1, 2]"
      4 chain_mesh "[0..<12]" "multipass_config 4 3" chain_state0 chain_state1 1 None
      "[0, 1, 3, 4, 6, 7, 9, 10, 11, 2, 5, 8]" 2
      "Some [0, 2, 9, 12, 2, 4, - 1, - 1, 4, 6, - 1, - 1, 6, 9, - 1, - 1]"
      ten_b_faces_mesh 3 4 "replicate 10 0"]
  note w' = new_to_old_bijection[of 2 4 3 path_faces "[0, 1, 2]"
      4 conflict_mesh "[0..<n_i_faces conflict_mesh]" "multipass_config 4 1" chain_state0
      chain_state1 1 None "[8, 4, 2, 3, 6, 1, 0, 5, 9, 7]" 4
      "Some (group_index conflict_numbering)" ten_b_faces_mesh 3 4 "replicate 10 0"]
  have g: "\<exists>n2o n_grps sizes.
          independent_face_groups 2 4 3 path_faces [0, 1, 2] = Some (n2o, n_grps, sizes)
          \<and> distinct n2o \<and> set n2o = {0..<3}"
    using w path_faces_ok by simp
  have g': "distinct [0, 2, 1 :: nat] \<and> set [0, 2, 1] = {0..<3 :: nat}"
    using g unfolding path_faces_groups by (metis option.inject prod.inject)
  have "\<exists>n2o ng gi.
         renum_face_multipass (multipass_config 4 3) chain_mesh 4 [0..<12] 1 None
           = Some (Some (0, n2o, ng, Some gi))
         \<and> distinct (take (n_i_faces chain_mesh) n2o)
         \<and> set (take (n_i_faces chain_mesh) n2o) = {0..<n_i_faces chain_mesh}"
    using w chain_init chain_passes by (simp add: nc)
  then obtain n2o ng gi where c:
    "renum_face_multipass (multipass_config 4 3) chain_mesh 4 [0..<12] 1 None
       = Some (Some (0, n2o, ng, Some gi))"
    "distinct (take 12 n2o)" "set (take 12 n2o) = {0..<12}"
    unfolding nc by blast
  from c(1) have "n2o = [0, 1, 3, 4, 6, 7, 9, 10, 11, 2, 5, 8]"
    unfolding chain_multipass by (metis option.inject prod.inject)
  with c have c': "\<exists>n2o ng gi.
         renum_face_multipass (multipass_config 4 3) chain_mesh 4 [0..<12] 1 None
           = Some (Some (0, n2o, ng, Some gi))
         \<and> n2o = [0, 1, 3, 4, 6, 7, 9, 10, 11, 2, 5, 8]
         \<and> distinct (take 12 n2o) \<and> set (take 12 n2o) = {0..<12}"
    by blast
  have i: "distinct (take 10 [8, 4, 2, 3, 6, 1, 0, 5, 9, 7 :: nat])
           \<and> set (take 10 [8, 4, 2, 3, 6, 1, 0, 5, 9, 7]) = {0..<10 :: nat}"
    using w' conflict_mesh_multipass unfolding ni by blast
  have b: "distinct (take 10 [1, 2, 3, 0, 4, 5, 6, 7, 8, 9 :: nat])
           \<and> set (take 10 [1, 2, 3, 0, 4, 5, 6, 7, 8, 9]) = {0..<10 :: nat}"
    using w unfolding ten_b_faces_result nb by simp
  have bn: "fst (snd (renum_b_faces_no_share_cell_across_thread ten_b_faces_mesh 3 4
                  (replicate 10 0))) = [1, 2, 3, 0, 4, 5, 6, 7, 8, 9]"
    by (simp add: ten_b_faces_result)
  show ?thesis
    by (intro conjI path_faces_groups conjunct1[OF g'] conjunct2[OF g'] chain_init chain_passes
        c' conflict_mesh_multipass conjunct1[OF i] conjunct2[OF i] bn conjunct1[OF b]
        conjunct2[OF b])
qed

end
